theory Spec2Isabelle
  imports Complex_Main "HOL-Library.Log_Nat"
begin

section \<open>JavaScript values used by \<open>src/index.ts\<close>\<close>

subsection \<open>Strings\<close>

text \<open>
  A JavaScript string is a sequence of UTF-16 code units. It is modelled as a \<open>string\<close>
  whose characters stand for the code units U+0000 to U+00FF; strings holding a code
  unit above U+00FF are outside the model.
\<close>

definition code_unit :: "char \<Rightarrow> nat" where
  "code_unit c = of_char c"

text \<open>
  \<open>WhiteSpace\<close> and \<open>LineTerminator\<close> of ECMAScript, as far as they lie below U+0100:
  TAB, LF, VT, FF, CR, SP and NBSP. These are the characters \<open>String.prototype.trim\<close>,
  \<open>parseInt\<close> and \<open>parseFloat\<close> strip.
\<close>

definition isWhiteSpace :: "char \<Rightarrow> bool" where
  "isWhiteSpace c \<longleftrightarrow> code_unit c \<in> {9, 10, 11, 12, 13, 32, 160}"

definition isDigit :: "char \<Rightarrow> bool" where
  "isDigit c \<longleftrightarrow> 48 \<le> code_unit c \<and> code_unit c \<le> 57"

definition digitValue :: "char \<Rightarrow> nat" where
  "digitValue c = code_unit c - 48"

text \<open>The mathematical value of a sequence of decimal digits, most significant first.\<close>

definition decimalValue :: "string \<Rightarrow> nat" where
  "decimalValue ds = foldl (\<lambda>acc c. 10 * acc + digitValue c) 0 ds"

text \<open>
  \<open>String.prototype.toLowerCase\<close>: below U+0100 the letters with a lower-case partner
  are A to Z and U+00C0 to U+00DE without the multiplication sign U+00D7; the partner is
  32 code units up.
\<close>

definition lowerChar :: "char \<Rightarrow> char" where
  "lowerChar c =
     (let n = code_unit c in
      if (65 \<le> n \<and> n \<le> 90) \<or> (192 \<le> n \<and> n \<le> 222 \<and> n \<noteq> 215)
      then char_of (n + 32) else c)"

definition toLowerCase :: "string \<Rightarrow> string" where
  "toLowerCase s = map lowerChar s"

definition trimStart :: "string \<Rightarrow> string" where
  "trimStart s = dropWhile isWhiteSpace s"

definition trim :: "string \<Rightarrow> string" where
  "trim s = rev (dropWhile isWhiteSpace (rev (dropWhile isWhiteSpace s)))"

definition endsWith :: "string \<Rightarrow> string \<Rightarrow> bool" where
  "endsWith s t \<longleftrightarrow> length t \<le> length s \<and> drop (length s - length t) s = t"

text \<open>
  \<open>String.prototype.slice(start, end)\<close>: a negative index counts from the end, and both
  indices are clamped to the string.
\<close>

definition sliceIndex :: "nat \<Rightarrow> int \<Rightarrow> nat" where
  "sliceIndex len i = (if i < 0 then nat (max (int len + i) 0) else min (nat i) len)"

definition slice :: "string \<Rightarrow> int \<Rightarrow> int \<Rightarrow> string" where
  "slice s start end =
     (let from = sliceIndex (length s) start; to = sliceIndex (length s) end
      in take (to - from) (drop from s))"

subsection \<open>Numbers\<close>

text \<open>
  The Number type of JavaScript: IEEE 754 binary64. A finite value other than \<open>-0\<close> is
  \<open>Num q\<close> with \<open>q\<close> its exact rational value, so \<open>Num 0\<close> is \<open>+0\<close>.
\<close>

datatype number = NaN | PosInfinity | NegInfinity | NegZero | Num rat

definition pow2 :: "int \<Rightarrow> rat" where
  "pow2 e = (if 0 \<le> e then 2 ^ nat e else 1 / 2 ^ nat (- e))"

text \<open>For \<open>0 < q\<close>, the integer \<open>k\<close> with \<open>2 ^ k \<le> q < 2 ^ (k + 1)\<close>.\<close>

definition floor_log2 :: "rat \<Rightarrow> int" where
  "floor_log2 q = (if 1 \<le> q then bitlen \<lfloor>q\<rfloor> - 1 else - bitlen (\<lceil>1 / q\<rceil> - 1))"

definition roundTiesToEven :: "rat \<Rightarrow> int" where
  "roundTiesToEven x =
     (let f = \<lfloor>x\<rfloor>; d = x - of_int f in
      if d < 1 / 2 then f else if 1 / 2 < d then f + 1
      else if even f then f else f + 1)"

text \<open>
  The exponent of the unit in the last place of the binary64 value nearest to \<open>a > 0\<close>:
  53 significant bits, and no exponent below that of the subnormal numbers.
\<close>

definition ulpExponent :: "rat \<Rightarrow> int" where
  "ulpExponent a = max (floor_log2 a - 52) (- 1074)"

definition roundMagnitude :: "rat \<Rightarrow> rat" where
  "roundMagnitude a =
     (if a = 0 then 0
      else of_int (roundTiesToEven (a / pow2 (ulpExponent a))) * pow2 (ulpExponent a))"

definition signedZero :: "bool \<Rightarrow> number" where
  "signedZero neg = (if neg then NegZero else Num 0)"

definition signedInfinity :: "bool \<Rightarrow> number" where
  "signedInfinity neg = (if neg then NegInfinity else PosInfinity)"

text \<open>
  The Number value for the real number of sign \<open>neg\<close> and magnitude \<open>a \<ge> 0\<close>: round to
  nearest, ties to even; a result of \<open>2 ^ 1024\<close> or more is an infinity, and a zero keeps
  the sign.
\<close>

definition toNumber :: "bool \<Rightarrow> rat \<Rightarrow> number" where
  "toNumber neg a =
     (let r = roundMagnitude a in
      if 2 ^ 1024 \<le> r then signedInfinity neg
      else if r = 0 then signedZero neg
      else Num (if neg then - r else r))"

definition isNegative :: "number \<Rightarrow> bool" where
  "isNegative x = (case x of NegInfinity \<Rightarrow> True | NegZero \<Rightarrow> True | Num q \<Rightarrow> q < 0 | _ \<Rightarrow> False)"

definition isZero :: "number \<Rightarrow> bool" where
  "isZero x \<longleftrightarrow> x = NegZero \<or> x = Num 0"

definition isInfinite :: "number \<Rightarrow> bool" where
  "isInfinite x \<longleftrightarrow> x = PosInfinity \<or> x = NegInfinity"

definition magnitude :: "number \<Rightarrow> rat" where
  "magnitude x = (case x of Num q \<Rightarrow> \<bar>q\<bar> | _ \<Rightarrow> 0)"

text \<open>\<open>Number.isInteger\<close>: a finite value without a fractional part.\<close>

definition isInteger :: "number \<Rightarrow> bool" where
  "isInteger x = (case x of Num q \<Rightarrow> of_int \<lfloor>q\<rfloor> = q | NegZero \<Rightarrow> True | _ \<Rightarrow> False)"

text \<open>The operator \<open>*\<close> on Numbers (\<open>Number::multiply\<close>).\<close>

definition multiply :: "number \<Rightarrow> number \<Rightarrow> number" where
  "multiply x y =
     (if x = NaN \<or> y = NaN then NaN
      else if isInfinite x \<or> isInfinite y then
        (if isZero x \<or> isZero y then NaN
         else signedInfinity (isNegative x \<noteq> isNegative y))
      else toNumber (isNegative x \<noteq> isNegative y) (magnitude x * magnitude y))"

text \<open>
  \<open>Math.round\<close>: the integral Number closest to the argument, the one nearer to
  \<open>+\<infinity>\<close> of two equally close; \<open>-0\<close> for an argument from \<open>-0.5\<close> up to \<open>-0\<close>.
\<close>

definition Math_round :: "number \<Rightarrow> number" where
  "Math_round x =
     (case x of
        Num q \<Rightarrow> (let r = \<lfloor>q + 1 / 2\<rfloor> in if r = 0 \<and> q < 0 then NegZero else Num (of_int r))
      | _ \<Rightarrow> x)"

text \<open>\<open>ToBoolean\<close> on Numbers and the operator \<open>||\<close>.\<close>

definition toBoolean :: "number \<Rightarrow> bool" where
  "toBoolean x \<longleftrightarrow> x \<noteq> NaN \<and> x \<noteq> NegZero \<and> x \<noteq> Num 0"

definition logicalOr :: "number \<Rightarrow> number \<Rightarrow> number" where
  "logicalOr x y = (if toBoolean x then x else y)"

subsection \<open>\<open>parseInt\<close> and \<open>parseFloat\<close>\<close>

text \<open>
  \<open>parseInt(string, 10)\<close>: leading white space is skipped, a sign is read, and the longest
  run of decimal digits that follows is the value; without a digit the result is \<open>NaN\<close>.
  The mathematical value is rounded to a Number. (ECMAScript lets an implementation
  replace the digits after the twentieth by zeros; the model rounds the exact value.)
\<close>

definition parseInt10 :: "string \<Rightarrow> number" where
  "parseInt10 s =
     (let t = trimStart s;
          neg = (t \<noteq> [] \<and> hd t = CHR ''-'');
          u = (if t \<noteq> [] \<and> (hd t = CHR ''+'' \<or> hd t = CHR ''-'') then tl t else t);
          z = takeWhile isDigit u
      in if z = [] then NaN else toNumber neg (of_nat (decimalValue z)))"

text \<open>
  The exponent part of a \<open>StrDecimalLiteral\<close>: \<open>e\<close> or \<open>E\<close>, an optional sign and at
  least one digit. An \<open>e\<close> that no digit follows is not part of the literal.
\<close>

definition exponentPart :: "string \<Rightarrow> int" where
  "exponentPart r =
     (if r \<noteq> [] \<and> (hd r = CHR ''e'' \<or> hd r = CHR ''E'') then
        (let r1 = tl r;
             eneg = (r1 \<noteq> [] \<and> hd r1 = CHR ''-'');
             r2 = (if r1 \<noteq> [] \<and> (hd r1 = CHR ''+'' \<or> hd r1 = CHR ''-'') then tl r1 else r1);
             ed = takeWhile isDigit r2
         in if ed = [] then 0
            else if eneg then - int (decimalValue ed) else int (decimalValue ed))
      else 0)"

definition pow10 :: "int \<Rightarrow> rat" where
  "pow10 e = (if 0 \<le> e then 10 ^ nat e else 1 / 10 ^ nat (- e))"

text \<open>
  \<open>parseFloat(string)\<close>: leading white space is skipped and the longest prefix that is a
  \<open>StrDecimalLiteral\<close> (a sign, then \<open>Infinity\<close> or decimal digits with an optional
  fraction and exponent) is the value, rounded to a Number; without such a prefix the
  result is \<open>NaN\<close>. (As for \<open>parseInt\<close>, the model rounds the exact value, where
  ECMAScript lets an implementation drop the digits after the twentieth.)
\<close>

definition parseFloat :: "string \<Rightarrow> number" where
  "parseFloat s =
     (let t = trimStart s;
          neg = (t \<noteq> [] \<and> hd t = CHR ''-'');
          u = (if t \<noteq> [] \<and> (hd t = CHR ''+'' \<or> hd t = CHR ''-'') then tl t else t)
      in if take 8 u = ''Infinity'' then signedInfinity neg
         else
           (let ip = takeWhile isDigit u;
                r = dropWhile isDigit u;
                dot = (r \<noteq> [] \<and> hd r = CHR ''.'');
                fp = (if dot then takeWhile isDigit (tl r) else []);
                r' = (if dot then dropWhile isDigit (tl r) else r)
            in if ip = [] \<and> fp = [] then NaN
               else toNumber neg
                      (of_nat (decimalValue (ip @ fp))
                         * pow10 (exponentPart r' - int (length fp)))))"

section \<open>The numeric normalizer\<close>

text \<open>
  \<^verbatim>\<open>
  function parseNumericValue(value: string): number {
    if (!value) return 0;
    const normalized = value.toLowerCase().trim();
    if (normalized.endsWith('k')) {
      return Math.round(parseFloat(normalized.slice(0, -1)) * 1000);
    }
    return parseInt(normalized, 10) || 0;
  }
  \<close>
\<close>

definition parseNumericValue :: "string \<Rightarrow> number" where
  "parseNumericValue value =
     (if value = [] then Num 0
      else
        (let normalized = trim (toLowerCase value) in
         if endsWith normalized ''k''
         then Math_round (multiply (parseFloat (slice normalized 0 (- 1))) (Num 1000))
         else logicalOr (parseInt10 normalized) (Num 0)))"

section \<open>The extractor\<close>

subsection \<open>Data model\<close>

text \<open>
  \<^verbatim>\<open>
  interface PinnedRepo {
    owner: string; repo: string; link: string; description?: string; image: string;
    website?: string; language?: string; languageColor?: string;
    stars: number; forks: number;
  }
  \<close>
  An optional field that is \<open>undefined\<close> is \<open>None\<close>.
\<close>

record PinnedRepo =
  owner :: string
  repo :: string
  link :: string
  description :: "string option"
  image :: string
  website :: "string option"
  language :: "string option"
  languageColor :: "string option"
  stars :: number
  forks :: number

text \<open>A thrown \<open>Error\<close> with its message.\<close>

datatype error = Error string

definition message :: "error \<Rightarrow> string" where
  "message e = (case e of Error m \<Rightarrow> m)"

subsection \<open>The outside world\<close>

text \<open>
  What \<open>fetch\<close> and the HTML query library give the program is a parameter of the
  model. A \<open>fetch\<close> either rejects (a network failure, or the abort signal fired by the
  five-second timer) or resolves with a response; reading the body of a response as text
  can fail as well (\<open>None\<close>).
\<close>

record httpResponse =
  httpStatus :: nat
  bodyText :: "string option"

datatype fetchOutcome = Rejected error | Resolved httpResponse

text \<open>
  A loaded document, as far as the program queries it. For a pinned item the fields are,
  in this order, the values of
  \<^verbatim>\<open>$item.find('[class*="repo"]').text()\<close>,
  \<^verbatim>\<open>$item.find('.pinned-item-desc').text()\<close>,
  \<^verbatim>\<open>$item.find('[class*="language-color"]').next().text()\<close>,
  \<^verbatim>\<open>$item.find('[class*="language-color"]').css('background-color')\<close>,
  \<^verbatim>\<open>$item.find('a[href*="/stargazers"]').text()\<close> and
  \<^verbatim>\<open>$item.find('a[href*="/forks"]').text()\<close>.
  For the document, \<open>pinnedItems\<close> is
  \<^verbatim>\<open>$('.js-pinned-items-reorder-list > li').toArray()\<close> and \<open>borderGridHref\<close> is
  \<^verbatim>\<open>$('[class*="BorderGrid-cell"] a[href^="https"]').first().attr("href")\<close>.
  The queries themselves are taken not to throw.
\<close>

record pinnedItem =
  repoText :: string
  descText :: string
  languageText :: string
  languageColorCss :: "string option"
  stargazersText :: string
  forksText :: string

record document =
  pinnedItems :: "pinnedItem list"
  borderGridHref :: "string option"

record world =
  fetch :: "string \<Rightarrow> fetchOutcome"
  cheerio_load :: "string \<Rightarrow> document"

subsection \<open>Fetching and loading\<close>

fun showNat :: "nat \<Rightarrow> string" where
  "showNat n =
     (if n < 10 then [char_of (48 + n)]
      else showNat (n div 10) @ [char_of (48 + n mod 10)])"

text \<open>\<open>response.ok\<close>: a status from 200 to 299.\<close>

definition ok :: "httpResponse \<Rightarrow> bool" where
  "ok r \<longleftrightarrow> 200 \<le> httpStatus r \<and> httpStatus r \<le> 299"

text \<open>
  \<^verbatim>\<open>
  async function fetchWithTimeout(url: string, timeout = 5000): Promise<Response> {
    ...
    try {
      const response = await fetch(url, { signal: controller.signal, headers: {...} });
      if (!response.ok) {
        throw new Error(`HTTP error! status: ${response.status}`);
      }
      return response;
    } finally { clearTimeout(timeoutId); }
  }
  \<close>
\<close>

definition fetchWithTimeout :: "world \<Rightarrow> string \<Rightarrow> error + httpResponse" where
  "fetchWithTimeout w url =
     (case fetch w url of
        Rejected e \<Rightarrow> Inl e
      | Resolved response \<Rightarrow>
          if \<not> ok response
          then Inl (Error (''HTTP error! status: '' @ showNat (httpStatus response)))
          else Inr response)"

text \<open>
  \<^verbatim>\<open>
  async function loadHTML(url: string): Promise<cheerio.CheerioAPI> {
    try {
      const response = await fetchWithTimeout(url);
      const html = await response.text();
      return cheerio.load(html);
    } catch (error) {
      console.error(`Failed to load URL: ${url}`, error);
      throw new Error(`Failed to load URL: ${url}`);
    }
  }
  \<close>
\<close>

definition loadHTML :: "world \<Rightarrow> string \<Rightarrow> error + document" where
  "loadHTML w url =
     (case fetchWithTimeout w url of
        Inl e \<Rightarrow> Inl (Error (''Failed to load URL: '' @ url))
      | Inr response \<Rightarrow>
          (case bodyText response of
             None \<Rightarrow> Inl (Error (''Failed to load URL: '' @ url))
           | Some html \<Rightarrow> Inr (cheerio_load w html)))"

subsection \<open>The website of a repository\<close>

text \<open>
  \<^verbatim>\<open>
  async function getRepoWebsite(repoUrl: string): Promise<string | undefined> {
    try {
      const $ = await loadHTML(repoUrl);
      const website = $('[class*="BorderGrid-cell"] a[href^="https"]').first().attr("href");
      return website?.trim();
    } catch (error) {
      console.error(`Failed to get website for repo: ${repoUrl}`, error);
      return undefined;
    }
  }
  \<close>
  The result type keeps the possibility of a rejection, so that its absence is a theorem.
\<close>

definition getRepoWebsite :: "world \<Rightarrow> string \<Rightarrow> error + string option" where
  "getRepoWebsite w repoUrl =
     (case loadHTML w repoUrl of
        Inr doc \<Rightarrow> Inr (map_option trim (borderGridHref doc))
      | Inl e \<Rightarrow> Inr None)"

subsection \<open>The pinned repositories of a user\<close>

text \<open>\<open>s || undefined\<close> on a string: the empty string is falsy.\<close>

definition orUndefined :: "string \<Rightarrow> string option" where
  "orUndefined s = (if s = [] then None else Some s)"

text \<open>
  \<open>Promise.all\<close>: the list of the results, or the rejection of a promise that rejects
  (of the first one in the list, in the model).
\<close>

fun promiseAll :: "(error + 'a) list \<Rightarrow> error + 'a list" where
  "promiseAll [] = Inr []"
| "promiseAll (p # ps) =
     (case p of
        Inl e \<Rightarrow> Inl e
      | Inr x \<Rightarrow> (case promiseAll ps of Inl e \<Rightarrow> Inl e | Inr xs \<Rightarrow> Inr (x # xs)))"

text \<open>
  The function mapped over the pinned items (lines 62 to 91). \<open>repoRecord\<close> is the object
  it returns, given the awaited value of \<open>getRepoWebsite\<close>; \<open>pinnedRepoOf\<close> is the
  function, which rejects if that call does.
  \<^verbatim>\<open>
      const repo = $item.find('[class*="repo"]').text().trim();
      const description = $item.find('.pinned-item-desc').text().trim();
      const language = $item.find('[class*="language-color"]').next().text().trim();
      const languageColor = $item.find('[class*="language-color"]').css('background-color');
      const stars = parseNumericValue($item.find('a[href*="/stargazers"]').text().trim());
      const forks = parseNumericValue($item.find('a[href*="/forks"]').text().trim());
      return {
        owner: username,
        repo,
        link: `https://github.com/${username}/${repo}`,
        description: description || undefined,
        image: `https://opengraph.githubassets.com/1/${username}/${repo}`,
        website: await getRepoWebsite(`https://github.com/${username}/${repo}`),
        language: language || undefined,
        languageColor: languageColor || undefined,
        stars,
        forks,
      };
  \<close>
\<close>

definition repoRecord :: "string \<Rightarrow> pinnedItem \<Rightarrow> string option \<Rightarrow> PinnedRepo" where
  "repoRecord username item website' =
     (let repo' = trim (repoText item);
          description' = trim (descText item);
          language' = trim (languageText item);
          languageColor' = languageColorCss item;
          stars' = parseNumericValue (trim (stargazersText item));
          forks' = parseNumericValue (trim (forksText item))
      in \<lparr> owner = username,
           repo = repo',
           link = ''https://github.com/'' @ username @ ''/'' @ repo',
           description = orUndefined description',
           image = ''https://opengraph.githubassets.com/1/'' @ username @ ''/'' @ repo',
           website = website',
           language = orUndefined language',
           languageColor = (case languageColor' of None \<Rightarrow> None | Some s \<Rightarrow> orUndefined s),
           stars = stars',
           forks = forks' \<rparr>)"

definition pinnedRepoOf :: "world \<Rightarrow> string \<Rightarrow> pinnedItem \<Rightarrow> error + PinnedRepo" where
  "pinnedRepoOf w username item =
     (case getRepoWebsite w (''https://github.com/'' @ username @ ''/'' @ trim (repoText item)) of
        Inl e \<Rightarrow> Inl e
      | Inr website' \<Rightarrow> Inr (repoRecord username item website'))"

text \<open>
  \<^verbatim>\<open>
  async function getPinnedRepos(username: string): Promise<PinnedRepo[]> {
    const $ = await loadHTML(`https://github.com/${username}`);
    const pinnedItems = $('.js-pinned-items-reorder-list > li').toArray();
    if (!pinnedItems.length) {
      return [];
    }
    const repos: PinnedRepo[] = await Promise.all(pinnedItems.map(async (item) => {...}));
    return repos;
  }
  \<close>
\<close>

definition getPinnedRepos :: "world \<Rightarrow> string \<Rightarrow> error + PinnedRepo list" where
  "getPinnedRepos w username =
     (case loadHTML w (''https://github.com/'' @ username) of
        Inl e \<Rightarrow> Inl e
      | Inr doc \<Rightarrow>
          if length (pinnedItems doc) = 0 then Inr []
          else promiseAll (map (pinnedRepoOf w username) (pinnedItems doc)))"

section \<open>The cache and the request handler\<close>

subsection \<open>The cache\<close>

text \<open>
  Modelled from the spec: the cache is an instance of the class \<open>LRU\<close> that line 2 imports
  from the package quick-lru, whose code is not among the sources of the repository; only
  the construction \<^verbatim>\<open>new LRU<string, PinnedRepo[]>({ maxSize: 500 })\<close> of lines 18 to
  20 is. The spec describes it as a mapping from user names to record lists, evicted under
  a capacity-bounded least-recently-used policy, which removes the entry least recently
  accessed when a new entry would exceed the capacity. The model keeps the entries in a
  list without repeated keys, the most recently used entry first.
\<close>

type_synonym cache = "(string \<times> PinnedRepo list) list"

text \<open>The configured capacity, \<^verbatim>\<open>maxSize: 500\<close> of line 19.\<close>

definition maxSize :: nat where
  "maxSize = 500"

text \<open>
  Modelled from the spec: \<open>cache.has(key)\<close> of the missing class, whether the mapping has
  an entry for the key. It is not an access.
\<close>

definition cache_has :: "cache \<Rightarrow> string \<Rightarrow> bool" where
  "cache_has c k \<longleftrightarrow> map_of c k \<noteq> None"

text \<open>
  Modelled from the spec: \<open>cache.get(key)\<close> of the missing class, the value of the entry,
  or \<open>undefined\<close> (\<open>None\<close>) without one. The access makes the entry the most recently
  used.
\<close>

definition cache_get :: "cache \<Rightarrow> string \<Rightarrow> PinnedRepo list option \<times> cache" where
  "cache_get c k =
     (case map_of c k of
        None \<Rightarrow> (None, c)
      | Some v \<Rightarrow> (Some v, (k, v) # filter (\<lambda>e. fst e \<noteq> k) c))"

text \<open>
  Modelled from the spec: \<open>cache.set(key, value)\<close> of the missing class. The entry is
  created or overwritten and becomes the most recently used; if the cache then exceeds its
  capacity, the least recently used entry is removed.
\<close>

definition cache_set :: "cache \<Rightarrow> string \<Rightarrow> PinnedRepo list \<Rightarrow> cache" where
  "cache_set c k v = take maxSize ((k, v) # filter (\<lambda>e. fst e \<noteq> k) c)"

subsection \<open>The handler\<close>

text \<open>
  Of a request the handler reads the method and the query parameters \<open>username\<close> and
  \<open>refresh\<close> (\<open>None\<close> for an absent parameter, the \<open>null\<close> of \<open>searchParams.get\<close>).
\<close>

record request =
  httpMethod :: string
  usernameParam :: "string option"
  refreshParam :: "string option"

datatype body =
    NoBody
  | InfoPage
  | ReposJson "PinnedRepo list"
  | ErrorJson string string

record response =
  status :: nat
  contentType :: "string option"
  body :: body

definition jsonResponse :: "PinnedRepo list option \<Rightarrow> response" where
  "jsonResponse result =
     \<lparr> status = 200, contentType = Some ''application/json'',
       body = (case result of Some repos \<Rightarrow> ReposJson repos | None \<Rightarrow> NoBody) \<rparr>"

definition errorResponse :: "error \<Rightarrow> response" where
  "errorResponse e =
     \<lparr> status = 500, contentType = Some ''application/json'',
       body = ErrorJson ''Failed to fetch pinned repositories'' (message e) \<rparr>"

text \<open>
  The handler is an asynchronous function. It runs without interruption up to the
  \<open>await\<close> of line 169, if it gets there, and other requests are served before it is
  resumed. \<open>handler\<close> is the part up to that point: the request is answered
  (\<open>Replied\<close>), answered from the cache with a refresh of the user's entry left in flight
  (\<open>RepliedRefreshing\<close>, lines 164 to 167), or suspended on the fetch for the user
  (\<open>Awaiting\<close>).
  \<^verbatim>\<open>
    if (request.method === "OPTIONS") { return new Response(null, { headers }); }
    const username = url.searchParams.get("username");
    const refresh = url.searchParams.get("refresh") === "true";
    if (!username) { return new Response(`<!DOCTYPE html> ...`, ...); }
    try {
      let result: PinnedRepo[];
      if (!refresh && cache.has(username)) {
        result = cache.get(username)!;
        getPinnedRepos(username).then(data => cache.set(username, data)).catch(console.error);
      } else {
        result = await getPinnedRepos(username);
        cache.set(username, result);
      }
      return new Response(JSON.stringify(result, null, 2), ...);
    } catch (error) {
      return new Response(JSON.stringify({ error: "Failed to fetch pinned repositories",
        details: error.message }), { status: 500, ... });
    }
  \<close>
\<close>

datatype handlerStep =
    Replied response
  | RepliedRefreshing response string
  | Awaiting string

definition handler :: "request \<Rightarrow> cache \<Rightarrow> handlerStep \<times> cache" where
  "handler request c =
     (if httpMethod request = ''OPTIONS''
      then (Replied \<lparr> status = 200, contentType = None, body = NoBody \<rparr>, c)
      else
        (let refresh = (refreshParam request = Some ''true'') in
         case usernameParam request of
           None \<Rightarrow>
             (Replied \<lparr> status = 200, contentType = Some ''text/html; charset=utf-8'',
                         body = InfoPage \<rparr>, c)
         | Some username \<Rightarrow>
             if username = [] then
               (Replied \<lparr> status = 200, contentType = Some ''text/html; charset=utf-8'',
                           body = InfoPage \<rparr>, c)
             else if \<not> refresh \<and> cache_has c username then
               (let (result, c') = cache_get c username
                in (RepliedRefreshing (jsonResponse result) username, c'))
             else (Awaiting username, c)))"

text \<open>
  The rest of the handler, run when the promise of line 169 settles: a result is stored
  and sent, a rejection is caught at line 176 and answered with status 500.
\<close>

definition handler_resumed ::
    "string \<Rightarrow> error + PinnedRepo list \<Rightarrow> cache \<Rightarrow> response \<times> cache" where
  "handler_resumed username outcome c =
     (case outcome of
        Inr result \<Rightarrow> (jsonResponse (Some result), cache_set c username result)
      | Inl e \<Rightarrow> (errorResponse e, c))"

text \<open>
  The callbacks of lines 166 and 167, run when the background refresh settles:
  \<^verbatim>\<open>.then(data => cache.set(username, data)).catch(console.error)\<close>.
\<close>

definition refresh_settled :: "string \<Rightarrow> error + PinnedRepo list \<Rightarrow> cache \<Rightarrow> cache" where
  "refresh_settled username outcome c =
     (case outcome of
        Inr data \<Rightarrow> cache_set c username data
      | Inl e \<Rightarrow> c)"

text \<open>
  What happens to the cache, one uninterrupted piece of the program at a time: a request
  arrives; the fetch a suspended request waits for settles; a background refresh
  settles. The fetches are those of \<open>getPinnedRepos\<close> in the world of the moment.
\<close>

datatype event =
    Request request
  | FetchSettled string world
  | RefreshSettled string world

definition step :: "cache \<Rightarrow> event \<Rightarrow> cache" where
  "step c ev =
     (case ev of
        Request request \<Rightarrow> snd (handler request c)
      | FetchSettled username w \<Rightarrow> snd (handler_resumed username (getPinnedRepos w username) c)
      | RefreshSettled username w \<Rightarrow> refresh_settled username (getPinnedRepos w username) c)"

definition run :: "cache \<Rightarrow> event list \<Rightarrow> cache" where
  "run c evs = foldl step c evs"

text \<open>
  A request served to its end with nothing else in between: what \<open>handler\<close> leaves in
  flight settles with the outcome of \<open>getPinnedRepos\<close> in the world \<open>w\<close>.
\<close>

definition settle :: "world \<Rightarrow> handlerStep \<times> cache \<Rightarrow> response \<times> cache" where
  "settle w sc =
     (case sc of
        (Replied r, c) \<Rightarrow> (r, c)
      | (RepliedRefreshing r username, c) \<Rightarrow>
          (r, refresh_settled username (getPinnedRepos w username) c)
      | (Awaiting username, c) \<Rightarrow> handler_resumed username (getPinnedRepos w username) c)"

section \<open>Sample worlds\<close>

text \<open>
  A world without a network: every \<open>fetch\<close> rejects.
\<close>

definition offlineWorld :: world where
  "offlineWorld =
     \<lparr> fetch = (\<lambda>url. Rejected (Error ''error sending request'')),
       cheerio_load = (\<lambda>html. \<lparr> pinnedItems = [], borderGridHref = None \<rparr>) \<rparr>"

text \<open>
  A world in which the user \<open>octocat\<close> has two pinned repositories. The page of the first
  one names a website; the page of the second one answers with status 404. Every other
  page loads and holds neither pinned items nor a website.
\<close>

definition sampleItem1 :: pinnedItem where
  "sampleItem1 =
     \<lparr> repoText = '' hello '', descText = ''My first repository'',
       languageText = ''TypeScript'', languageColorCss = Some ''#3178c6'',
       stargazersText = ''1.2k'', forksText = ''5'' \<rparr>"

definition sampleItem2 :: pinnedItem where
  "sampleItem2 =
     \<lparr> repoText = ''spoon'', descText = '''',
       languageText = '''', languageColorCss = None,
       stargazersText = ''-5'', forksText = ''xk'' \<rparr>"

definition sampleWorld :: world where
  "sampleWorld =
     \<lparr> fetch = (\<lambda>url.
         if url = ''https://github.com/octocat''
         then Resolved \<lparr> httpStatus = 200, bodyText = Some ''profile of octocat'' \<rparr>
         else if url = ''https://github.com/octocat/hello''
         then Resolved \<lparr> httpStatus = 200, bodyText = Some ''page of hello'' \<rparr>
         else if url = ''https://github.com/octocat/spoon''
         then Resolved \<lparr> httpStatus = 404, bodyText = Some ''Not Found'' \<rparr>
         else Resolved \<lparr> httpStatus = 200, bodyText = Some '''' \<rparr>),
       cheerio_load = (\<lambda>html.
         if html = ''profile of octocat''
         then \<lparr> pinnedItems = [sampleItem1, sampleItem2], borderGridHref = None \<rparr>
         else if html = ''page of hello''
         then \<lparr> pinnedItems = [], borderGridHref = Some '' https://example.com '' \<rparr>
         else \<lparr> pinnedItems = [], borderGridHref = None \<rparr>) \<rparr>"

text \<open>
  A cache that holds the list of \<open>octocat\<close>, and a full cache: 500 users with the names
  \<open>a\<close>, \<open>aa\<close>, \<open>aaa\<close> and so on, the longest name the least recently used.
\<close>

definition sampleCache :: cache where
  "sampleCache = [(''octocat'', [repoRecord ''octocat'' sampleItem2 None])]"

definition fullCache :: cache where
  "fullCache = map (\<lambda>i. (replicate (Suc i) CHR ''a'', [])) [0..<500]"

definition sampleRequest :: "bool \<Rightarrow> request" where
  "sampleRequest refresh =
     \<lparr> httpMethod = ''GET'', usernameParam = Some ''octocat'',
       refreshParam = (if refresh then Some ''true'' else None) \<rparr>"

section \<open>Properties of the number model\<close>

subsection \<open>Powers of two and the binary logarithm\<close>

lemma pow2_power_int: "pow2 e = power_int 2 e"
  by (simp add: pow2_def power_int_def inverse_eq_divide power_one_over)

lemma pow2_pos: "0 < pow2 e"
  by (simp add: pow2_power_int)

lemma pow2_add: "pow2 (a + b) = pow2 a * pow2 b"
  by (simp add: pow2_power_int power_int_add)

lemma pow2_nat: "pow2 (int n) = 2 ^ n"
  by (simp add: pow2_def)

lemma pow2_mono: "a \<le> b \<Longrightarrow> pow2 a \<le> pow2 b"
  by (simp add: pow2_power_int power_int_increasing)

lemma floor_log2_ge1:
  assumes "1 \<le> q"
  shows "pow2 (floor_log2 q) \<le> q \<and> q < pow2 (floor_log2 q + 1)"
proof -
  let ?n = "\<lfloor>q\<rfloor>"
  have n: "0 < ?n" using assms by simp
  from bitlen_bounds[OF n] have b: "2 ^ nat (bitlen ?n - 1) \<le> ?n" "?n < 2 ^ nat (bitlen ?n)" by auto
  have bl: "1 \<le> bitlen ?n" using n by (simp add: bitlen_alt_def)
  have fl: "floor_log2 q = bitlen ?n - 1" using assms by (simp add: floor_log2_def)
  have "pow2 (bitlen ?n - 1) = of_int (2 ^ nat (bitlen ?n - 1))"
    using bl by (simp add: pow2_def)
  also have "\<dots> \<le> of_int ?n" using b(1) by (simp only: of_int_le_iff)
  also have "\<dots> \<le> q" by simp
  finally have lo: "pow2 (floor_log2 q) \<le> q" by (simp add: fl)
  have "?n + 1 \<le> 2 ^ nat (bitlen ?n)" using b(2) by simp
  then have "(of_int (?n + 1) :: rat) \<le> of_int (2 ^ nat (bitlen ?n))" by (simp only: of_int_le_iff)
  moreover have "q < of_int (?n + 1)" by linarith
  moreover have "pow2 (bitlen ?n) = of_int (2 ^ nat (bitlen ?n))"
    using bl by (simp add: pow2_def)
  ultimately have hi: "q < pow2 (floor_log2 q + 1)" by (simp add: fl)
  show ?thesis using lo hi by simp
qed
lemma recip_le: "0 < (q::rat) \<Longrightarrow> 0 < P \<Longrightarrow> 1 / q \<le> P \<Longrightarrow> 1 / P \<le> q"
  by (simp add: field_simps)
lemma recip_less: "0 < (q::rat) \<Longrightarrow> 0 < P \<Longrightarrow> P < 1 / q \<Longrightarrow> q < 1 / P"
  by (simp add: field_simps)

lemma floor_log2_lt1:
  assumes "0 < q" "q < 1"
  shows "pow2 (floor_log2 q) \<le> q \<and> q < pow2 (floor_log2 q + 1)"
proof -
  let ?r = "1 / q"
  let ?n = "\<lceil>?r\<rceil> - 1"
  let ?k = "bitlen ?n"
  have r1: "1 < ?r" using assms by simp
  then have "2 \<le> \<lceil>?r\<rceil>" by linarith
  then have n: "0 < ?n" by simp
  from bitlen_bounds[OF n] have b: "2 ^ nat (?k - 1) \<le> ?n" "?n < 2 ^ nat ?k" by auto
  have bl: "1 \<le> ?k" using n by (simp add: bitlen_alt_def)
  have fl: "floor_log2 q = - ?k" using assms by (simp add: floor_log2_def)
  have p1: "pow2 (- ?k) = 1 / of_int (2 ^ nat ?k)" using bl by (simp add: pow2_def)
  have p2: "pow2 (- ?k + 1) = 1 / of_int (2 ^ nat (?k - 1))"
  proof (cases "?k = 1")
    case True then show ?thesis by (simp add: pow2_def)
  next
    case False
    then have "- ?k + 1 < 0" using bl by simp
    moreover have "nat (- (- ?k + 1)) = nat (?k - 1)" by simp
    ultimately show ?thesis by (simp add: pow2_def)
  qed
  have "\<lceil>?r\<rceil> \<le> 2 ^ nat ?k" using b(2) by simp
  then have "(of_int \<lceil>?r\<rceil> :: rat) \<le> of_int (2 ^ nat ?k)" by (simp only: of_int_le_iff)
  moreover have "?r \<le> of_int \<lceil>?r\<rceil>" by simp
  ultimately have ub: "?r \<le> of_int (2 ^ nat ?k)" by linarith
  have "(0::rat) < of_int (2 ^ nat ?k)" by simp
  from recip_le[OF assms(1) this ub] have lo: "pow2 (floor_log2 q) \<le> q"
    by (simp only: fl p1)
  have "(of_int (2 ^ nat (?k - 1)) :: rat) \<le> of_int ?n" using b(1) by (simp only: of_int_le_iff)
  moreover have "of_int ?n < ?r" by linarith
  ultimately have lb: "of_int (2 ^ nat (?k - 1)) < ?r" by linarith
  have "(0::rat) < of_int (2 ^ nat (?k - 1))" by simp
  from recip_less[OF assms(1) this lb] have hi: "q < pow2 (floor_log2 q + 1)"
    by (simp only: fl p2)
  show ?thesis using lo hi by simp
qed

lemma floor_log2_bounds:
  "0 < q \<Longrightarrow> pow2 (floor_log2 q) \<le> q \<and> q < pow2 (floor_log2 q + 1)"
  using floor_log2_ge1 floor_log2_lt1 by (cases "1 \<le> q") auto

lemma pow2_less_imp: "pow2 a < pow2 b \<Longrightarrow> a < b"
  using pow2_mono[of b a] by (cases "a < b") auto

lemma floor_log2_eqI:
  assumes "pow2 k \<le> q" "q < pow2 (k + 1)"
  shows "floor_log2 q = k"
proof -
  have q: "0 < q" using assms(1) pow2_pos[of k] by linarith
  from floor_log2_bounds[OF q] have b: "pow2 (floor_log2 q) \<le> q" "q < pow2 (floor_log2 q + 1)" by auto
  have "pow2 k < pow2 (floor_log2 q + 1)" using assms(1) b(2) by linarith
  then have "k < floor_log2 q + 1" by (rule pow2_less_imp)
  moreover have "pow2 (floor_log2 q) < pow2 (k + 1)" using assms(2) b(1) by linarith
  then have "floor_log2 q < k + 1" by (rule pow2_less_imp)
  ultimately show ?thesis by simp
qed
lemma roundTiesToEven_of_int: "roundTiesToEven (of_int z) = z"
  by (simp add: roundTiesToEven_def)

lemma ulpExponent_eqI:
  assumes "pow2 (e + 52) \<le> a" "a < pow2 (e + 53)" "- 1074 \<le> e"
  shows "ulpExponent a = e"
proof -
  have "floor_log2 a = e + 52"
    using assms(1,2) by (intro floor_log2_eqI) (simp_all add: add.commute add.left_commute)
  then show ?thesis using assms(3) by (simp add: ulpExponent_def)
qed

lemma roundMagnitude_eqI:
  assumes "pow2 (e + 52) \<le> a" "a < pow2 (e + 53)" "- 1074 \<le> e"
  shows "roundMagnitude a = of_int (roundTiesToEven (a / pow2 e)) * pow2 e"
proof -
  have "0 < a" using assms(1) pow2_pos[of "e + 52"] by linarith
  then show ?thesis by (simp add: roundMagnitude_def ulpExponent_eqI[OF assms])
qed

lemma roundMagnitude_nat:
  assumes "n < 2 ^ 53"
  shows "roundMagnitude (of_nat n) = of_nat n"
proof (cases "n = 0")
  case True then show ?thesis by (simp add: roundMagnitude_def)
next
  case False
  let ?q = "of_nat n :: rat"
  have q1: "1 \<le> ?q" using False by simp
  then have q0: "0 < ?q" by linarith
  from floor_log2_bounds[OF q0]
  have b: "pow2 (floor_log2 ?q) \<le> ?q" "?q < pow2 (floor_log2 ?q + 1)" by auto
  have "pow2 0 < pow2 (floor_log2 ?q + 1)" using q1 b(2) by (simp add: pow2_def)
  then have lo: "0 \<le> floor_log2 ?q" using pow2_less_imp by fastforce
  have "?q < 2 ^ 53" using assms by (metis of_nat_less_iff of_nat_numeral of_nat_power)
  then have "pow2 (floor_log2 ?q) < pow2 53" using b(1) by (simp add: pow2_def)
  then have hi: "floor_log2 ?q < 53" by (rule pow2_less_imp)
  define j where "j = nat (52 - floor_log2 ?q)"
  have e: "ulpExponent ?q = - int j" using lo hi by (simp add: ulpExponent_def j_def)
  have p: "pow2 (- int j) = 1 / 2 ^ j" by (simp add: pow2_def)
  have "?q / pow2 (- int j) = of_int (int n * 2 ^ j)" by (simp add: p)
  then have "roundTiesToEven (?q / pow2 (- int j)) = int n * 2 ^ j"
    by (simp only: roundTiesToEven_of_int)
  then show ?thesis using False by (simp add: roundMagnitude_def e p)
qed

lemma toNumber_nat:
  assumes "0 < n" "n < 2 ^ 53"
  shows "toNumber neg (of_nat n) = Num (if neg then - of_nat n else of_nat n)"
proof -
  have "(of_nat n :: rat) < 2 ^ 53"
    using assms(2) by (metis of_nat_less_iff of_nat_numeral of_nat_power)
  moreover have "(2::rat) ^ 53 < 2 ^ 1024" by simp
  ultimately have "\<not> (2::rat) ^ 1024 \<le> of_nat n" by linarith
  then show ?thesis using assms(1) by (simp add: toNumber_def roundMagnitude_nat[OF assms(2)])
qed

lemma toNumber_zero: "toNumber neg 0 = signedZero neg"
  by (simp add: toNumber_def roundMagnitude_def)

lemma floor_rat_numeral_div [simp]: "\<lfloor>(numeral a :: rat) / numeral b\<rfloor> = numeral a div numeral b"
  by (metis floor_divide_of_int_eq of_int_numeral)

lemma toNumber_eqI:
  assumes "pow2 (e + 52) \<le> a" "a < pow2 (e + 53)" "- 1074 \<le> e"
    and "roundTiesToEven (a / pow2 e) = m" "0 < m" "of_int m * pow2 e < 2 ^ 1024"
  shows "toNumber neg a = Num (if neg then - (of_int m * pow2 e) else of_int m * pow2 e)"
proof -
  have r: "roundMagnitude a = of_int m * pow2 e"
    using roundMagnitude_eqI[OF assms(1-3)] assms(4) by simp
  have "0 < of_int m * pow2 e" using assms(5) pow2_pos[of e] by simp
  then have "of_int m * pow2 e \<noteq> 0" "\<not> 2 ^ 1024 \<le> of_int m * pow2 e"
    using assms(6) by auto
  then show ?thesis unfolding toNumber_def r Let_def by simp
qed

subsection \<open>Strings\<close>

lemmas char_defs = code_unit_def isWhiteSpace_def isDigit_def digitValue_def lowerChar_def

lemma slice_butlast: "slice s 0 (- 1) = butlast s"
proof -
  have "nat (max (int (length s) - 1) 0) = length s - 1" by arith
  then show ?thesis by (simp add: slice_def sliceIndex_def butlast_conv_take)
qed

subsection \<open>Evaluating the normalizer\<close>

lemma toNumber_numeral:
  "numeral k < (2::nat) ^ 53 \<Longrightarrow> toNumber False (numeral k) = Num (numeral k)"
  using toNumber_nat[of "numeral k" False] by simp

lemma multiply_Num_pos:
  "0 < a \<Longrightarrow> 0 < b \<Longrightarrow> multiply (Num a) (Num b) = toNumber False (a * b)"
  by (simp add: multiply_def isInfinite_def isNegative_def magnitude_def)

lemma parseNumericValue_k:
  assumes "value \<noteq> []" "endsWith (trim (toLowerCase value)) ''k''"
  shows "parseNumericValue value =
         Math_round (multiply (parseFloat (butlast (trim (toLowerCase value)))) (Num 1000))"
  using assms by (simp add: parseNumericValue_def slice_butlast)

lemma parseNumericValue_int:
  assumes "value \<noteq> []" "\<not> endsWith (trim (toLowerCase value)) ''k''"
  shows "parseNumericValue value = logicalOr (parseInt10 (trim (toLowerCase value))) (Num 0)"
  using assms by (simp add: parseNumericValue_def)

lemma Math_round_nearest:
  "\<exists>z. (Math_round (Num q) = Num (of_int z) \<or> Math_round (Num q) = NegZero \<and> z = 0)
       \<and> \<bar>of_int z - q\<bar> \<le> 1 / 2"
proof -
  let ?z = "\<lfloor>q + 1 / 2\<rfloor>"
  have "of_int ?z \<le> q + 1 / 2" "q + 1 / 2 < of_int ?z + 1" by linarith+
  then have "\<bar>of_int ?z - q\<bar> \<le> 1 / 2" by linarith
  moreover have "Math_round (Num q) = Num (of_int ?z) \<or> Math_round (Num q) = NegZero \<and> ?z = 0"
    by (simp add: Math_round_def Let_def)
  ultimately show ?thesis by blast
qed

lemma pnv_empty: "parseNumericValue '''' = Num 0"
  by (simp add: parseNumericValue_def)

lemma pnv_0: "parseNumericValue ''0'' = Num 0"
proof -
  have n: "trim (toLowerCase ''0'') = ''0''"
    by (simp add: trim_def toLowerCase_def char_defs)
  have "parseInt10 ''0'' = toNumber False 0"
    by (simp add: parseInt10_def trimStart_def char_defs decimalValue_def)
  then show ?thesis
    by (simp add: parseNumericValue_def n endsWith_def toNumber_zero signedZero_def
        logicalOr_def toBoolean_def)
qed

lemma pnv_5: "parseNumericValue ''5'' = Num 5"
proof -
  have n: "trim (toLowerCase ''5'') = ''5''"
    by (simp add: trim_def toLowerCase_def char_defs)
  have "parseInt10 ''5'' = toNumber False 5"
    by (simp add: parseInt10_def trimStart_def char_defs decimalValue_def)
  then show ?thesis
    by (simp add: parseNumericValue_def n endsWith_def toNumber_numeral
        logicalOr_def toBoolean_def)
qed

lemma pnv_abc: "parseNumericValue ''abc'' = Num 0"
proof -
  have n: "trim (toLowerCase ''abc'') = ''abc''"
    by (simp add: trim_def toLowerCase_def char_defs)
  have "parseInt10 ''abc'' = NaN"
    by (simp add: parseInt10_def trimStart_def char_defs)
  then show ?thesis
    by (simp add: parseNumericValue_def n endsWith_def logicalOr_def toBoolean_def)
qed

lemma parseFloat_2: "parseFloat ''2'' = Num 2"
  by (simp add: parseFloat_def trimStart_def char_defs decimalValue_def exponentPart_def
      pow10_def toNumber_numeral)

lemma pnv_2k: "parseNumericValue ''2k'' = Num 2000"
proof -
  have n: "trim (toLowerCase ''2k'') = ''2k''"
    by (simp add: trim_def toLowerCase_def char_defs)
  have "multiply (Num 2) (Num 1000) = Num 2000"
    by (simp add: multiply_Num_pos toNumber_numeral)
  then show ?thesis
    by (simp add: parseNumericValue_def n endsWith_def slice_butlast parseFloat_2
        Math_round_def Let_def)
qed

lemma toNumber_6_5: "toNumber False (6 / 5) = Num (5404319552844595 / 4503599627370496)"
proof -
  have "toNumber False (6 / 5) =
        Num (if False then - (of_int 5404319552844595 * pow2 (- 52))
             else of_int 5404319552844595 * pow2 (- 52))"
    by (rule toNumber_eqI) (simp_all add: pow2_def roundTiesToEven_def Let_def)
  then show ?thesis by (simp add: pow2_def)
qed

lemma toNumber_1200:
  "toNumber False (5404319552844595 / 4503599627370496 * 1000) = Num 1200"
proof -
  have "toNumber False (5404319552844595 / 4503599627370496 * 1000) =
        Num (if False then - (of_int 5277655813324800 * pow2 (- 42))
             else of_int 5277655813324800 * pow2 (- 42))"
    by (rule toNumber_eqI) (simp_all add: pow2_def roundTiesToEven_def Let_def)
  then show ?thesis by (simp add: pow2_def)
qed

lemma parseFloat_1_2: "parseFloat ''1.2'' = Num (5404319552844595 / 4503599627370496)"
proof -
  have "parseFloat ''1.2'' = toNumber False (6 / 5)"
    by (simp add: parseFloat_def trimStart_def char_defs decimalValue_def exponentPart_def
        pow10_def)
  then show ?thesis by (simp only: toNumber_6_5)
qed

lemma pnv_1_2k: "parseNumericValue ''1.2k'' = Num 1200"
proof -
  have n: "trim (toLowerCase ''1.2k'') = ''1.2k''"
    by (simp add: trim_def toLowerCase_def char_defs)
  have "multiply (Num (5404319552844595 / 4503599627370496)) (Num 1000) = Num 1200"
    using toNumber_1200 by (simp add: multiply_Num_pos)
  then show ?thesis
    by (simp add: parseNumericValue_def n endsWith_def slice_butlast parseFloat_1_2
        Math_round_def Let_def)
qed

lemma pnv_3_400: "parseNumericValue ''3,400'' = Num 3"
proof -
  have n: "trim (toLowerCase ''3,400'') = ''3,400''"
    by (simp add: trim_def toLowerCase_def char_defs)
  have "parseInt10 ''3,400'' = toNumber False 3"
    by (simp add: parseInt10_def trimStart_def char_defs decimalValue_def)
  then show ?thesis
    by (simp add: parseNumericValue_def n endsWith_def toNumber_numeral
        logicalOr_def toBoolean_def)
qed

lemma pnv_xk: "parseNumericValue ''xk'' = NaN"
proof -
  have n: "trim (toLowerCase ''xk'') = ''xk''"
    by (simp add: trim_def toLowerCase_def char_defs)
  have "parseFloat ''x'' = NaN"
    by (simp add: parseFloat_def trimStart_def char_defs)
  then show ?thesis
    by (simp add: parseNumericValue_def n endsWith_def slice_butlast multiply_def
        Math_round_def)
qed

section \<open>Properties of the extractor\<close>

lemma loadHTML_Inr_iff:
  "loadHTML w url = Inr doc \<longleftrightarrow>
     (\<exists>r html. fetch w url = Resolved r \<and> ok r \<and> bodyText r = Some html
        \<and> doc = cheerio_load w html)"
  by (auto simp: loadHTML_def fetchWithTimeout_def split: fetchOutcome.splits option.splits)

lemma loadHTML_Inl_iff:
  "loadHTML w url = Inl e \<longleftrightarrow>
     e = Error (''Failed to load URL: '' @ url)
     \<and> ((\<exists>e'. fetch w url = Rejected e')
        \<or> (\<exists>r. fetch w url = Resolved r \<and> (\<not> ok r \<or> bodyText r = None)))"
  by (auto simp: loadHTML_def fetchWithTimeout_def split: fetchOutcome.splits option.splits)

lemma getRepoWebsite_Inr:
  "getRepoWebsite w repoUrl =
     Inr (case loadHTML w repoUrl of
            Inr doc \<Rightarrow> map_option trim (borderGridHref doc)
          | Inl e \<Rightarrow> None)"
  by (simp add: getRepoWebsite_def split: sum.splits)

lemma pinnedRepoOf_Inr:
  "pinnedRepoOf w username item =
     Inr (repoRecord username item
            (case loadHTML w (''https://github.com/'' @ username @ ''/'' @ trim (repoText item)) of
               Inr doc \<Rightarrow> map_option trim (borderGridHref doc)
             | Inl e \<Rightarrow> None))"
  by (simp add: pinnedRepoOf_def getRepoWebsite_Inr)

lemma promiseAll_map_Inr: "promiseAll (map (\<lambda>x. Inr (g x)) xs) = Inr (map g xs)"
  by (induction xs) simp_all

lemma getPinnedRepos_loaded:
  assumes "loadHTML w (''https://github.com/'' @ username) = Inr doc"
  shows "getPinnedRepos w username =
           Inr (map (\<lambda>item. repoRecord username item
                      (case loadHTML w (''https://github.com/'' @ username @ ''/''
                                          @ trim (repoText item)) of
                         Inr d \<Rightarrow> map_option trim (borderGridHref d)
                       | Inl e \<Rightarrow> None))
                    (pinnedItems doc))"
proof -
  have "pinnedRepoOf w username =
        (\<lambda>item. Inr (repoRecord username item
                      (case loadHTML w (''https://github.com/'' @ username @ ''/''
                                          @ trim (repoText item)) of
                         Inr d \<Rightarrow> map_option trim (borderGridHref d)
                       | Inl e \<Rightarrow> None)))"
    by (rule ext) (rule pinnedRepoOf_Inr)
  then show ?thesis
    unfolding getPinnedRepos_def assms by (simp only: promiseAll_map_Inr) simp
qed

lemma getPinnedRepos_not_loaded:
  "loadHTML w (''https://github.com/'' @ username) = Inl e \<Longrightarrow> getPinnedRepos w username = Inl e"
  by (simp add: getPinnedRepos_def)

lemma getPinnedRepos_Inl_iff:
  "getPinnedRepos w username = Inl e \<longleftrightarrow> loadHTML w (''https://github.com/'' @ username) = Inl e"
proof (cases "loadHTML w (''https://github.com/'' @ username)")
  case (Inl e')
  then show ?thesis by (simp add: getPinnedRepos_not_loaded)
next
  case (Inr doc)
  then show ?thesis by (simp add: getPinnedRepos_loaded)
qed
subsection \<open>The sample worlds\<close>

lemma loadHTML_offline: "loadHTML offlineWorld url = Inl (Error (''Failed to load URL: '' @ url))"
  by (simp add: loadHTML_def fetchWithTimeout_def offlineWorld_def)

lemma loadHTML_sample_profile:
  "loadHTML sampleWorld ''https://github.com/octocat'' =
     Inr \<lparr> pinnedItems = [sampleItem1, sampleItem2], borderGridHref = None \<rparr>"
  by (simp add: loadHTML_def fetchWithTimeout_def sampleWorld_def ok_def)

lemma loadHTML_sample_hello:
  "loadHTML sampleWorld ''https://github.com/octocat/hello'' =
     Inr \<lparr> pinnedItems = [], borderGridHref = Some '' https://example.com '' \<rparr>"
  by (simp add: loadHTML_def fetchWithTimeout_def sampleWorld_def ok_def)

lemma loadHTML_sample_spoon:
  "loadHTML sampleWorld ''https://github.com/octocat/spoon'' =
     Inl (Error ''Failed to load URL: https://github.com/octocat/spoon'')"
  by (simp add: loadHTML_def fetchWithTimeout_def sampleWorld_def ok_def)

lemma loadHTML_sample_nobody:
  "loadHTML sampleWorld ''https://github.com/nobody'' =
     Inr \<lparr> pinnedItems = [], borderGridHref = None \<rparr>"
  by (simp add: loadHTML_def fetchWithTimeout_def sampleWorld_def ok_def)

lemma trim_sample:
  "trim '' hello '' = ''hello''" "trim ''spoon'' = ''spoon''"
  "trim '' https://example.com '' = ''https://example.com''"
  by (simp_all add: trim_def char_defs)

lemma getPinnedRepos_sample:
  "getPinnedRepos sampleWorld ''octocat'' =
     Inr [repoRecord ''octocat'' sampleItem1 (Some ''https://example.com''),
          repoRecord ''octocat'' sampleItem2 None]"
proof -
  have t1: "trim (repoText sampleItem1) = ''hello''" and t2: "trim (repoText sampleItem2) = ''spoon''"
    by (simp_all add: sampleItem1_def sampleItem2_def trim_sample)
  have p: "loadHTML sampleWorld (''https://github.com/'' @ ''octocat'') =
           Inr \<lparr> pinnedItems = [sampleItem1, sampleItem2], borderGridHref = None \<rparr>"
    using loadHTML_sample_profile by simp
  show ?thesis
    by (simp add: getPinnedRepos_loaded[OF p] t1 t2
        loadHTML_sample_hello loadHTML_sample_spoon trim_sample)
qed

section \<open>Properties of the cache and the handler\<close>

lemma map_of_filter_key:
  "map_of (filter (\<lambda>e. fst e \<noteq> k) c) k' = (if k' = k then None else map_of c k')"
  by (induction c) auto

lemma fst_cache_get: "fst (cache_get c k) = map_of c k"
  by (simp add: cache_get_def split: option.splits)

lemma map_of_cache_get: "map_of (snd (cache_get c k)) k' = map_of c k'"
  by (auto simp: cache_get_def map_of_filter_key split: option.splits)

lemma length_cache_get: "length (snd (cache_get c k)) \<le> length c"
proof (cases "map_of c k")
  case None
  then show ?thesis by (simp add: cache_get_def)
next
  case (Some v)
  then have "(k, v) \<in> set c" by (rule map_of_SomeD)
  then have "length (filter (\<lambda>e. fst e \<noteq> k) c) < length c"
    by (intro length_filter_less[of "(k, v)"]) simp_all
  then show ?thesis using Some by (simp add: cache_get_def)
qed

lemma distinct_keys_filter:
  "distinct (map fst c) \<Longrightarrow> distinct (k # map fst (filter (\<lambda>e. fst e \<noteq> k) c))"
  by (auto simp: distinct_map_filter)

lemma distinct_cache_get:
  "distinct (map fst c) \<Longrightarrow> distinct (map fst (snd (cache_get c k)))"
  using distinct_keys_filter[of c k] by (auto simp: cache_get_def split: option.splits)

lemma length_cache_set: "length (cache_set c k v) \<le> maxSize"
  by (simp add: cache_set_def)

lemma distinct_cache_set:
  assumes "distinct (map fst c)"
  shows "distinct (map fst (cache_set c k v))"
proof -
  have "map fst (cache_set c k v)
          = take maxSize (map fst ((k, v) # filter (\<lambda>e. fst e \<noteq> k) c))"
    unfolding cache_set_def by (rule take_map[symmetric])
  then have "map fst (cache_set c k v)
          = take maxSize (k # map fst (filter (\<lambda>e. fst e \<noteq> k) c))"
    by simp
  then show ?thesis using distinct_keys_filter[OF assms, of k] distinct_take by metis
qed

lemma map_of_cache_set_same: "map_of (cache_set c k v) k = Some v"
  by (simp add: cache_set_def maxSize_def take_Cons')

lemma cache_set_no_eviction:
  assumes "length c < maxSize \<or> (k \<in> fst ` set c \<and> length c \<le> maxSize)"
  shows "cache_set c k v = (k, v) # filter (\<lambda>e. fst e \<noteq> k) c"
proof -
  have "length (filter (\<lambda>e. fst e \<noteq> k) c) < maxSize"
  proof (cases "length c < maxSize")
    case True
    then show ?thesis using length_filter_le[of "\<lambda>e. fst e \<noteq> k" c] by linarith
  next
    case False
    with assms obtain e where "e \<in> set c" "fst e = k" "length c \<le> maxSize" by auto
    then have "length (filter (\<lambda>e. fst e \<noteq> k) c) < length c"
      by (intro length_filter_less[of e]) simp_all
    then show ?thesis using \<open>length c \<le> maxSize\<close> by linarith
  qed
  then show ?thesis by (simp add: cache_set_def)
qed

lemma cache_set_keeps_others:
  assumes "length c < maxSize \<or> (k \<in> fst ` set c \<and> length c \<le> maxSize)" "k' \<noteq> k"
  shows "map_of (cache_set c k v) k' = map_of c k'"
  using assms(2) by (simp add: cache_set_no_eviction[OF assms(1)] map_of_filter_key)

lemma filter_absent_key: "k \<notin> fst ` set c \<Longrightarrow> filter (\<lambda>e. fst e \<noteq> k) c = c"
  by (induction c) auto

lemma cache_set_evicts_last:
  assumes "length c = maxSize" "k \<notin> fst ` set c"
  shows "cache_set c k v = (k, v) # butlast c"
proof -
  have "take (maxSize - 1) c = butlast c"
    using assms(1) by (simp add: butlast_conv_take)
  then show ?thesis
    by (simp add: cache_set_def filter_absent_key[OF assms(2)] maxSize_def take_Cons')
qed

lemma evicted_is_absent:
  assumes "distinct (map fst c)" "length c = maxSize" "k \<notin> fst ` set c"
  shows "\<not> cache_has (cache_set c k v) (fst (last c))"
proof -
  have ne: "c \<noteq> []" using assms(2) by (auto simp: maxSize_def)
  then have c: "c = butlast c @ [last c]" by simp
  have "last c \<in> set c" using ne by simp
  then have 1: "fst (last c) \<noteq> k" using assms(3) by auto
  have "distinct (map fst (butlast c) @ [fst (last c)])"
    using assms(1) c by (metis list.simps(8,9) map_append)
  then have "fst (last c) \<notin> fst ` set (butlast c)" by auto
  then have 2: "map_of (butlast c) (fst (last c)) = None"
    by (simp add: map_of_eq_None_iff)
  show ?thesis
    using 1 2 by (simp add: cache_has_def cache_set_evicts_last[OF assms(2,3)])
qed

lemma survivors_kept:
  assumes "length c = maxSize" "k \<notin> fst ` set c" "k' \<noteq> k" "k' \<noteq> fst (last c)"
  shows "map_of (cache_set c k v) k' = map_of c k'"
proof -
  have ne: "c \<noteq> []" using assms(1) by (auto simp: maxSize_def)
  then have "map_of c k' = map_of (butlast c @ [last c]) k'" by simp
  also have "\<dots> = map_of (butlast c) k'"
    using assms(4) by (simp only: map_of_append) (simp add: map_add_def split: option.splits)
  finally show ?thesis
    using assms(3) by (simp add: cache_set_evicts_last[OF assms(1,2)])
qed
lemma handler_hit:
  assumes "httpMethod request \<noteq> ''OPTIONS''" "usernameParam request = Some username"
    "username \<noteq> []" "refreshParam request \<noteq> Some ''true''" "map_of c username = Some repos"
  shows "handler request c =
           (RepliedRefreshing (jsonResponse (Some repos)) username,
            (username, repos) # filter (\<lambda>e. fst e \<noteq> username) c)"
  using assms by (simp add: handler_def cache_has_def cache_get_def)

lemma handler_fetches:
  assumes "httpMethod request \<noteq> ''OPTIONS''" "usernameParam request = Some username"
    "username \<noteq> []" "refreshParam request = Some ''true'' \<or> \<not> cache_has c username"
  shows "handler request c = (Awaiting username, c)"
  using assms by (auto simp: handler_def)

lemma snd_handler:
  "snd (handler request c) = c
   \<or> snd (handler request c) = snd (cache_get c (the (usernameParam request)))"
  by (auto simp: handler_def Let_def split: option.splits prod.splits)

lemma step_invariant:
  assumes "distinct (map fst c)" "length c \<le> maxSize"
  shows "distinct (map fst (step c ev)) \<and> length (step c ev) \<le> maxSize"
proof (cases ev)
  case (Request request)
  from snd_handler[of request c] show ?thesis
  proof
    assume "snd (handler request c) = c"
    then show ?thesis using assms Request by (simp add: step_def)
  next
    let ?u = "the (usernameParam request)"
    assume "snd (handler request c) = snd (cache_get c ?u)"
    then show ?thesis
      using assms Request distinct_cache_get[of c ?u] length_cache_get[of c ?u]
      by (simp add: step_def)
  qed
next
  case (FetchSettled username w)
  then show ?thesis
    using assms by (cases "getPinnedRepos w username")
      (simp_all add: step_def handler_resumed_def distinct_cache_set length_cache_set)
next
  case (RefreshSettled username w)
  then show ?thesis
    using assms by (cases "getPinnedRepos w username")
      (simp_all add: step_def refresh_settled_def distinct_cache_set length_cache_set)
qed

lemma run_invariant:
  "distinct (map fst c) \<Longrightarrow> length c \<le> maxSize \<Longrightarrow>
   distinct (map fst (run c evs)) \<and> length (run c evs) \<le> maxSize"
proof (induction evs arbitrary: c)
  case Nil
  then show ?case by (simp add: run_def)
next
  case (Cons ev evs)
  from step_invariant[OF Cons.prems]
  have "distinct (map fst (step c ev))" "length (step c ev) \<le> maxSize" by auto
  from Cons.IH[OF this] show ?case by (simp add: run_def)
qed
subsection \<open>The sample caches\<close>

lemma fullCache_keys: "map fst fullCache = map (\<lambda>i. replicate (Suc i) CHR ''a'') [0..<500]"
  by (simp add: fullCache_def comp_def)

lemma distinct_fullCache: "distinct (map fst fullCache)"
proof -
  have "inj_on (\<lambda>i. replicate (Suc i) CHR ''a'') (set [0..<500])"
    by (rule inj_onI) (metis length_replicate nat.inject)
  then show ?thesis by (simp only: fullCache_keys distinct_map distinct_upt)
qed

lemma length_fullCache: "length fullCache = 500"
  by (simp add: fullCache_def)

lemma fullCache_no_b: "''b'' \<notin> fst ` set fullCache"
proof
  assume "''b'' \<in> fst ` set fullCache"
  then have "''b'' \<in> set (map fst fullCache)" by simp
  then obtain i where "''b'' = replicate (Suc i) CHR ''a''"
    unfolding fullCache_keys by auto
  then show False by simp
qed

lemma last_fullCache: "last fullCache = (replicate 500 CHR ''a'', [])"
proof -
  have "fullCache \<noteq> []" by (simp add: fullCache_def)
  have "last fullCache = (\<lambda>i. (replicate (Suc i) CHR ''a'', [])) (last [0..<500])"
    unfolding fullCache_def by (rule last_map) simp
  also have "last [0..<500] = (499::nat)"
    using last_upt[of 0 500] by simp
  finally show ?thesis by simp
qed

subsection \<open>Filling the cache\<close>

lemma cache_keys_after_get:
  "cache_has c k \<Longrightarrow> map fst (snd (cache_get c k)) = k # filter (\<lambda>x. x \<noteq> k) (map fst c)"
  by (auto simp: cache_has_def cache_get_def filter_map comp_def)

lemma cache_keys_after_set:
  "map fst (cache_set c k v) = take maxSize (k # filter (\<lambda>x. x \<noteq> k) (map fst c))"
proof -
  have "map fst (cache_set c k v)
          = take maxSize (map fst ((k, v) # filter (\<lambda>e. fst e \<noteq> k) c))"
    unfolding cache_set_def by (rule take_map[symmetric])
  then show ?thesis by (simp add: filter_map comp_def)
qed

lemma fill_cache:
  "distinct ks \<Longrightarrow> length ks \<le> maxSize \<Longrightarrow>
   foldl (\<lambda>c k. cache_set c k (f k)) [] ks = rev (map (\<lambda>k. (k, f k)) ks)"
proof (induction ks rule: rev_induct)
  case Nil
  then show ?case by simp
next
  case (snoc k ks)
  let ?c = "rev (map (\<lambda>k. (k, f k)) ks)"
  have ih: "foldl (\<lambda>c k. cache_set c k (f k)) [] ks = ?c"
    using snoc by simp
  have k: "k \<notin> fst ` set ?c" using snoc.prems(1) by (auto simp: image_iff)
  have l: "length ?c < maxSize" using snoc.prems(2) by simp
  have "cache_set ?c k (f k) = (k, f k) # ?c"
    using cache_set_no_eviction[of ?c k "f k"] l by (simp add: filter_absent_key[OF k])
  then show ?case by (simp add: ih)
qed

lemma overfill_cache:
  assumes "distinct (ks @ [k])" "length ks = maxSize"
  shows "foldl (\<lambda>c k. cache_set c k (f k)) [] (ks @ [k])
           = (k, f k) # rev (map (\<lambda>k. (k, f k)) (tl ks))"
proof -
  let ?c = "rev (map (\<lambda>k. (k, f k)) ks)"
  have d: "distinct ks" "k \<notin> set ks" using assms(1) by auto
  have ne: "ks \<noteq> []" using assms(2) by (auto simp: maxSize_def)
  have f: "foldl (\<lambda>c k. cache_set c k (f k)) [] ks = ?c"
    using fill_cache[OF d(1)] assms(2) by simp
  have k: "k \<notin> fst ` set ?c" using d(2) by (auto simp: image_iff)
  have l: "length ?c = maxSize" using assms(2) by simp
  have "butlast ?c = rev (map (\<lambda>k. (k, f k)) (tl ks))"
    using ne by (cases ks) simp_all
  then show ?thesis
    by (simp add: f cache_set_evicts_last[OF l k])
qed

lemma overfill_cache_members:
  assumes "distinct (ks @ [k])" "length ks = maxSize"
  shows "\<not> cache_has (foldl (\<lambda>c k. cache_set c k (f k)) [] (ks @ [k])) (hd ks)"
    and "\<forall>k'\<in>set (tl ks) \<union> {k}.
           map_of (foldl (\<lambda>c k. cache_set c k (f k)) [] (ks @ [k])) k' = Some (f k')"
    and "length (foldl (\<lambda>c k. cache_set c k (f k)) [] (ks @ [k])) = maxSize"
proof -
  let ?c = "foldl (\<lambda>c k. cache_set c k (f k)) [] (ks @ [k])"
  let ?g = "\<lambda>k. (k, f k)"
  have c: "?c = ?g k # rev (map ?g (tl ks))" by (rule overfill_cache[OF assms])
  have ne: "ks \<noteq> []" using assms(2) by (auto simp: maxSize_def)
  then have ks: "ks = hd ks # tl ks" by simp
  have d: "distinct (hd ks # tl ks @ [k])" using assms(1) ks by (metis append_Cons)
  then have h: "hd ks \<noteq> k" "hd ks \<notin> set (tl ks)" "k \<notin> set (tl ks)" "distinct (tl ks)"
    by auto
  have m: "map_of (rev (map ?g xs)) k' = (if k' \<in> set xs then Some (f k') else None)"
    if "distinct xs" for xs k'
    using that by (induction xs) (auto simp: map_add_def split: option.splits)
  show "\<not> cache_has ?c (hd ks)"
    unfolding c using h by (simp add: cache_has_def m[OF h(4)])
  show "\<forall>k'\<in>set (tl ks) \<union> {k}. map_of ?c k' = Some (f k')"
    unfolding c using h by (auto simp: m[OF h(4)])
  show "length ?c = maxSize"
    unfolding c using assms(2) ne by (simp add: maxSize_def)
qed

subsection \<open>Sign and integrality of the normalizer\<close>

lemma roundTiesToEven_nonneg: "0 \<le> x \<Longrightarrow> 0 \<le> roundTiesToEven x"
proof -
  assume "0 \<le> x"
  then have "0 \<le> \<lfloor>x\<rfloor>" by simp
  then show ?thesis by (simp add: roundTiesToEven_def Let_def)
qed

lemma roundMagnitude_nonneg: "0 \<le> a \<Longrightarrow> 0 \<le> roundMagnitude a"
proof -
  assume a: "0 \<le> a"
  have "0 \<le> a / pow2 (ulpExponent a)"
    using a pow2_pos[of "ulpExponent a"] by simp
  then have "0 \<le> roundTiesToEven (a / pow2 (ulpExponent a))"
    by (rule roundTiesToEven_nonneg)
  then show ?thesis
    using pow2_pos[of "ulpExponent a"] by (simp add: roundMagnitude_def)
qed

lemma toNumber_cases:
  assumes "0 \<le> a"
  shows "toNumber neg a = signedInfinity neg \<or> toNumber neg a = signedZero neg
         \<or> (0 < roundMagnitude a
            \<and> toNumber neg a = Num (if neg then - roundMagnitude a else roundMagnitude a))"
  using roundMagnitude_nonneg[OF assms] by (auto simp: toNumber_def Let_def)

lemma toNumber_not_NaN: "toNumber neg a \<noteq> NaN"
  by (simp add: toNumber_def Let_def signedInfinity_def signedZero_def)

lemma toNumber_sign: "0 \<le> a \<Longrightarrow> isNegative (toNumber neg a) \<Longrightarrow> neg"
  using toNumber_cases[of a neg]
  by (auto simp: isNegative_def signedInfinity_def signedZero_def split: if_splits)

lemma roundMagnitude_nat_integer: "\<exists>k::int. roundMagnitude (of_nat n) = of_int k"
proof (cases "n < 2 ^ 53")
  case True
  then have "roundMagnitude (of_nat n) = of_int (int n)" by (simp add: roundMagnitude_nat)
  then show ?thesis by blast
next
  case False
  let ?q = "of_nat n :: rat"
  have "(2::nat) ^ 53 \<le> n" using False by simp
  then have "(of_nat ((2::nat) ^ 53) :: rat) \<le> ?q" by (simp only: of_nat_le_iff)
  then have q: "pow2 53 \<le> ?q" by (simp add: pow2_def)
  then have q0: "0 < ?q" using pow2_pos[of 53] by linarith
  from floor_log2_bounds[OF q0] q have "pow2 53 < pow2 (floor_log2 ?q + 1)" by linarith
  then have "53 < floor_log2 ?q + 1" by (rule pow2_less_imp)
  then have e: "1 \<le> ulpExponent ?q" by (simp add: ulpExponent_def)
  then have "pow2 (ulpExponent ?q) = of_int (2 ^ nat (ulpExponent ?q))"
    by (simp add: pow2_def)
  then have "roundMagnitude ?q
             = of_int (roundTiesToEven (?q / pow2 (ulpExponent ?q)) * 2 ^ nat (ulpExponent ?q))"
    using q0 by (simp add: roundMagnitude_def)
  then show ?thesis by blast
qed

lemma isInteger_Num_of_int: "isInteger (Num (of_int k))" "isInteger (Num (- of_int k))"
proof -
  show "isInteger (Num (of_int k))" by (simp add: isInteger_def)
  have "- (of_int k :: rat) = of_int (- k)" by simp
  then show "isInteger (Num (- of_int k))" by (simp only: isInteger_def number.case floor_of_int)
qed

lemma toNumber_nat_integer:
  "isInteger (toNumber neg (of_nat n)) \<or> isInfinite (toNumber neg (of_nat n))"
proof -
  obtain k :: int where k: "roundMagnitude (of_nat n) = of_int k"
    using roundMagnitude_nat_integer by blast
  have "(0::rat) \<le> of_nat n" by simp
  from toNumber_cases[OF this, of neg]
  consider "toNumber neg (of_nat n) = signedInfinity neg"
    | "toNumber neg (of_nat n) = signedZero neg"
    | "toNumber neg (of_nat n) = Num (if neg then - of_int k else of_int k)"
    unfolding k by blast
  then show ?thesis
  proof cases
    case 1
    then show ?thesis by (simp add: isInfinite_def signedInfinity_def)
  next
    case 2
    then show ?thesis by (cases neg) (simp_all add: signedZero_def isInteger_def)
  next
    case 3
    then show ?thesis by (cases neg) (simp_all add: isInteger_Num_of_int)
  qed
qed

lemma parseInt10_cases:
  "parseInt10 s = NaN
   \<or> (\<exists>n. parseInt10 s = toNumber (trimStart s \<noteq> [] \<and> hd (trimStart s) = CHR ''-'') (of_nat n))"
  by (auto simp: parseInt10_def Let_def)

lemma logicalOr_zero_integer:
  "isInteger x \<or> isInfinite x \<or> x = NaN \<Longrightarrow>
   isInteger (logicalOr x (Num 0)) \<or> isInfinite (logicalOr x (Num 0))"
  by (auto simp: logicalOr_def toBoolean_def isInteger_def)

lemma logicalOr_zero_sign: "isNegative (logicalOr x (Num 0)) \<Longrightarrow> isNegative x"
  by (auto simp: logicalOr_def isNegative_def split: if_splits)

lemma hd_dropWhile_in_set: "dropWhile P s \<noteq> [] \<Longrightarrow> hd (dropWhile P s) \<in> set s"
  by (metis hd_in_set set_dropWhileD)

lemma parseInt10_sign: "isNegative (parseInt10 s) \<Longrightarrow> CHR ''-'' \<in> set s"
proof -
  assume n: "isNegative (parseInt10 s)"
  then have "parseInt10 s \<noteq> NaN" by (auto simp: isNegative_def)
  with parseInt10_cases[of s] obtain m where
    "parseInt10 s = toNumber (trimStart s \<noteq> [] \<and> hd (trimStart s) = CHR ''-'') (of_nat m)"
    by blast
  with n have "trimStart s \<noteq> [] \<and> hd (trimStart s) = CHR ''-''"
    using toNumber_sign[of "of_nat m"] by simp
  then show ?thesis
    unfolding trimStart_def using hd_dropWhile_in_set[of isWhiteSpace s] by metis
qed
lemma Math_round_integer:
  "x \<noteq> NaN \<Longrightarrow> isInteger (Math_round x) \<or> isInfinite (Math_round x)"
  by (cases x) (simp_all add: Math_round_def Let_def isInteger_def isInfinite_def)

lemma Math_round_sign: "isNegative (Math_round x) \<Longrightarrow> isNegative x"
proof (cases x)
  case (Num q)
  assume n: "isNegative (Math_round x)"
  show ?thesis
  proof (rule ccontr)
    assume "\<not> isNegative x"
    then have q: "0 \<le> q" using Num by (simp add: isNegative_def)
    then have "0 \<le> \<lfloor>q + 1 / 2\<rfloor>" by simp
    then show False using n q Num by (simp add: Math_round_def Let_def isNegative_def)
  qed
qed (simp_all add: Math_round_def)

lemma multiply_1000_not_NaN: "x \<noteq> NaN \<Longrightarrow> multiply x (Num 1000) \<noteq> NaN"
  by (simp add: multiply_def isInfinite_def isZero_def signedInfinity_def toNumber_not_NaN)

lemma multiply_1000_sign: "isNegative (multiply x (Num 1000)) \<Longrightarrow> isNegative x"
proof -
  assume n: "isNegative (multiply x (Num 1000))"
  have p: "\<not> isNegative (Num 1000)" by (simp add: isNegative_def)
  have m: "0 \<le> magnitude x * magnitude (Num 1000)"
    by (cases x) (simp_all add: magnitude_def)
  show ?thesis
  proof (cases "x = NaN \<or> isInfinite x")
    case True
    then show ?thesis
      using n by (auto simp: multiply_def isInfinite_def isZero_def signedInfinity_def
          isNegative_def split: if_splits)
  next
    case False
    then have "multiply x (Num 1000)
               = toNumber (isNegative x \<noteq> isNegative (Num 1000))
                   (magnitude x * magnitude (Num 1000))"
      by (simp add: multiply_def isInfinite_def)
    with n toNumber_sign[OF m] p show ?thesis by auto
  qed
qed

lemma pow10_pos: "0 < pow10 e"
  by (simp add: pow10_def)

lemma isNegative_signedInfinity: "isNegative (signedInfinity b) = b"
  by (simp add: isNegative_def signedInfinity_def)

lemma parseFloat_cases:
  "parseFloat s = NaN
   \<or> parseFloat s = signedInfinity (trimStart s \<noteq> [] \<and> hd (trimStart s) = CHR ''-'')
   \<or> (\<exists>m e. parseFloat s
               = toNumber (trimStart s \<noteq> [] \<and> hd (trimStart s) = CHR ''-'')
                   (of_nat m * pow10 e))"
proof -
  define t where "t = trimStart s"
  define u where "u = (if t \<noteq> [] \<and> (hd t = CHR ''+'' \<or> hd t = CHR ''-'') then tl t else t)"
  show ?thesis
  proof (cases "take 8 u = ''Infinity''")
    case True
    then have "parseFloat s = signedInfinity (t \<noteq> [] \<and> hd t = CHR ''-'')"
      unfolding parseFloat_def Let_def t_def u_def by simp
    then show ?thesis by (simp add: t_def)
  next
    case False
    define r where "r = dropWhile isDigit u"
    define fp where "fp = (if r \<noteq> [] \<and> hd r = CHR ''.'' then takeWhile isDigit (tl r) else [])"
    define r' where "r' = (if r \<noteq> [] \<and> hd r = CHR ''.'' then dropWhile isDigit (tl r) else r)"
    have "parseFloat s =
            (if takeWhile isDigit u = [] \<and> fp = [] then NaN
             else toNumber (t \<noteq> [] \<and> hd t = CHR ''-'')
                    (of_nat (decimalValue (takeWhile isDigit u @ fp))
                       * pow10 (exponentPart r' - int (length fp))))"
      using False unfolding parseFloat_def Let_def t_def u_def r_def fp_def r'_def
      by simp
    then show ?thesis unfolding t_def by (metis (full_types))
  qed
qed

lemma parseFloat_sign: "isNegative (parseFloat s) \<Longrightarrow> CHR ''-'' \<in> set s"
proof -
  assume n: "isNegative (parseFloat s)"
  let ?neg = "trimStart s \<noteq> [] \<and> hd (trimStart s) = CHR ''-''"
  from parseFloat_cases[of s]
  consider "parseFloat s = NaN" | "parseFloat s = signedInfinity ?neg"
    | m e where "parseFloat s = toNumber ?neg (of_nat m * pow10 e)"
    by blast
  then have ?neg
  proof cases
    case 1
    then show ?thesis using n by (simp add: isNegative_def)
  next
    case 2
    with n have "isNegative (signedInfinity ?neg)" by simp
    then show ?thesis by (simp add: isNegative_signedInfinity)
  next
    case 3
    have "0 \<le> of_nat m * pow10 e" using pow10_pos[of e] by simp
    from toNumber_sign[OF this] n 3 show ?thesis by simp
  qed
  then show ?thesis
    unfolding trimStart_def using hd_dropWhile_in_set[of isWhiteSpace s] by metis
qed

lemma lowerChar_minus: "lowerChar c = CHR ''-'' \<Longrightarrow> c = CHR ''-''"
proof (rule ccontr)
  assume l: "lowerChar c = CHR ''-''" and c: "c \<noteq> CHR ''-''"
  let ?n = "of_char c :: nat"
  have r: "(65 \<le> ?n \<and> ?n \<le> 90) \<or> (192 \<le> ?n \<and> ?n \<le> 222 \<and> ?n \<noteq> 215)"
    using l c by (auto simp: lowerChar_def code_unit_def Let_def split: if_splits)
  then have "lowerChar c = char_of (?n + 32)"
    by (simp add: lowerChar_def code_unit_def Let_def)
  then have "of_char (lowerChar c) = (?n + 32) mod 256" by (simp add: of_char_of)
  moreover have "(?n + 32) mod 256 = ?n + 32" using r by auto
  moreover have "of_char (CHR ''-'') = (45::nat)" by simp
  ultimately show False using l r by auto
qed

lemma set_trim: "set (trim s) \<subseteq> set s"
proof -
  have "set (trim s) \<subseteq> set (dropWhile isWhiteSpace s)"
    unfolding trim_def using set_dropWhileD by fastforce
  also have "\<dots> \<subseteq> set s" using set_dropWhileD by fastforce
  finally show ?thesis .
qed

lemma minus_in_normalized:
  assumes "CHR ''-'' \<in> set (trim (toLowerCase t))"
  shows "CHR ''-'' \<in> set t"
proof -
  from assms set_trim have "CHR ''-'' \<in> set (toLowerCase t)" by blast
  then obtain c where "c \<in> set t" "lowerChar c = CHR ''-''"
    by (auto simp: toLowerCase_def)
  then show ?thesis using lowerChar_minus by metis
qed

lemma parseNumericValue_integer_branch:
  assumes "\<not> endsWith (trim (toLowerCase t)) ''k''"
  shows "(isInteger (parseNumericValue t) \<or> isInfinite (parseNumericValue t))
         \<and> (CHR ''-'' \<notin> set t \<longrightarrow> \<not> isNegative (parseNumericValue t))
         \<and> (parseInt10 (trim (toLowerCase t)) = NaN \<longrightarrow> parseNumericValue t = Num 0)"
proof (cases "t = []")
  case True
  then show ?thesis by (simp add: parseNumericValue_def isInteger_def isNegative_def)
next
  case False
  let ?n = "trim (toLowerCase t)"
  have v: "parseNumericValue t = logicalOr (parseInt10 ?n) (Num 0)"
    by (rule parseNumericValue_int[OF False assms])
  have "isInteger (parseInt10 ?n) \<or> isInfinite (parseInt10 ?n) \<or> parseInt10 ?n = NaN"
    using parseInt10_cases[of ?n] toNumber_nat_integer by metis
  then have 1: "isInteger (parseNumericValue t) \<or> isInfinite (parseNumericValue t)"
    unfolding v by (rule logicalOr_zero_integer)
  have 2: "CHR ''-'' \<in> set t" if "isNegative (parseNumericValue t)"
  proof -
    from that have "isNegative (parseInt10 ?n)"
      unfolding v by (rule logicalOr_zero_sign)
    then have "CHR ''-'' \<in> set ?n" by (rule parseInt10_sign)
    then show ?thesis by (rule minus_in_normalized)
  qed
  have 3: "parseNumericValue t = Num 0" if "parseInt10 ?n = NaN"
    using that by (simp add: v logicalOr_def toBoolean_def)
  show ?thesis using 1 2 3 by blast
qed

lemma parseNumericValue_k_branch:
  assumes "endsWith (trim (toLowerCase t)) ''k''"
    and "parseFloat (butlast (trim (toLowerCase t))) \<noteq> NaN"
  shows "(isInteger (parseNumericValue t) \<or> isInfinite (parseNumericValue t))
         \<and> (CHR ''-'' \<notin> set t \<longrightarrow> \<not> isNegative (parseNumericValue t))"
proof (cases "t = []")
  case True
  then show ?thesis by (simp add: parseNumericValue_def isInteger_def isNegative_def)
next
  case False
  let ?n = "trim (toLowerCase t)"
  have v: "parseNumericValue t = Math_round (multiply (parseFloat (butlast ?n)) (Num 1000))"
    by (rule parseNumericValue_k[OF False assms(1)])
  have "multiply (parseFloat (butlast ?n)) (Num 1000) \<noteq> NaN"
    using assms(2) by (rule multiply_1000_not_NaN)
  then have 1: "isInteger (parseNumericValue t) \<or> isInfinite (parseNumericValue t)"
    unfolding v by (rule Math_round_integer)
  have 2: "CHR ''-'' \<in> set t" if "isNegative (parseNumericValue t)"
  proof -
    from that have "isNegative (multiply (parseFloat (butlast ?n)) (Num 1000))"
      unfolding v by (rule Math_round_sign)
    then have "isNegative (parseFloat (butlast ?n))" by (rule multiply_1000_sign)
    then have "CHR ''-'' \<in> set (butlast ?n)" by (rule parseFloat_sign)
    then have "CHR ''-'' \<in> set ?n" by (rule in_set_butlastD)
    then show ?thesis by (rule minus_in_normalized)
  qed
  show ?thesis using 1 2 by blast
qed


subsection \<open>The normalizer on plain digits and on a trailing letter k\<close>

lemma endsWith_single: "endsWith s [c] \<longleftrightarrow> s \<noteq> [] \<and> last s = c"
proof (cases s rule: rev_cases)
  case Nil
  then show ?thesis by (simp add: endsWith_def)
next
  case (snoc xs x)
  then show ?thesis by (auto simp: endsWith_def)
qed

lemma lowerChar_code:
  "of_char (lowerChar c) =
     (if (65 \<le> (of_char c :: nat) \<and> (of_char c :: nat) \<le> 90)
         \<or> (192 \<le> (of_char c :: nat) \<and> (of_char c :: nat) \<le> 222 \<and> (of_char c :: nat) \<noteq> 215)
      then of_char c + 32 else (of_char c :: nat))"
proof -
  have "(of_char c :: nat) + 32 < 256" if "(of_char c :: nat) \<le> 222"
    using that by simp
  then show ?thesis
    by (auto simp: lowerChar_def code_unit_def Let_def of_char_of)
qed

lemma isWhiteSpace_lowerChar: "isWhiteSpace (lowerChar c) = isWhiteSpace c"
  unfolding isWhiteSpace_def code_unit_def lowerChar_code by auto

lemma lowerChar_eq_k: "lowerChar c = CHR ''k'' \<longleftrightarrow> c = CHR ''k'' \<or> c = CHR ''K''"
proof -
  have "lowerChar c = CHR ''k'' \<longleftrightarrow> (of_char (lowerChar c) :: nat) = of_char (CHR ''k'')"
    by (simp only: of_char_eq_iff)
  also have "\<dots> \<longleftrightarrow> (of_char c :: nat) = 107 \<or> (of_char c :: nat) = 75"
    unfolding lowerChar_code by auto
  also have "\<dots> \<longleftrightarrow> (of_char c :: nat) = of_char (CHR ''k'') \<or> (of_char c :: nat) = of_char (CHR ''K'')"
    by simp
  also have "\<dots> \<longleftrightarrow> c = CHR ''k'' \<or> c = CHR ''K''"
    by (simp only: of_char_eq_iff)
  finally show ?thesis .
qed

lemma trim_toLowerCase: "trim (toLowerCase s) = toLowerCase (trim s)"
proof -
  have c: "isWhiteSpace \<circ> lowerChar = isWhiteSpace"
    by (rule ext) (simp add: isWhiteSpace_lowerChar)
  have d: "dropWhile isWhiteSpace (map lowerChar xs) = map lowerChar (dropWhile isWhiteSpace xs)"
    for xs by (simp add: dropWhile_map c)
  have "trim (toLowerCase s)
        = rev (dropWhile isWhiteSpace (map lowerChar (rev (dropWhile isWhiteSpace s))))"
    unfolding trim_def toLowerCase_def by (simp only: d rev_map)
  also have "\<dots> = map lowerChar (rev (dropWhile isWhiteSpace (rev (dropWhile isWhiteSpace s))))"
    by (simp only: d rev_map)
  finally show ?thesis by (simp only: trim_def toLowerCase_def)
qed

lemma endsWith_k_iff:
  "endsWith (trim (toLowerCase value)) ''k''
   \<longleftrightarrow> trim value \<noteq> [] \<and> (last (trim value) = CHR ''k'' \<or> last (trim value) = CHR ''K'')"
proof (cases "trim value = []")
  case True
  then show ?thesis by (simp only: trim_toLowerCase) (simp add: toLowerCase_def endsWith_def)
next
  case False
  then show ?thesis
    by (simp only: trim_toLowerCase)
      (simp add: toLowerCase_def endsWith_single last_map lowerChar_eq_k)
qed

lemma digit_not_white: "isDigit c \<Longrightarrow> \<not> isWhiteSpace c"
  by (auto simp: isDigit_def isWhiteSpace_def)

lemma digit_lower: "isDigit c \<Longrightarrow> lowerChar c = c"
  by (auto simp: isDigit_def lowerChar_def Let_def)

lemma digit_not_letter:
  assumes "isDigit c"
  shows "c \<noteq> CHR ''k''" "c \<noteq> CHR ''-''" "c \<noteq> CHR ''+''" "c \<noteq> CHR ''I''"
  using assms by (auto simp: isDigit_def code_unit_def)

lemma trim_no_white:
  assumes "s \<noteq> []" "\<not> isWhiteSpace (hd s)" "\<not> isWhiteSpace (last s)"
  shows "trim s = s"
proof -
  have 1: "dropWhile isWhiteSpace s = s"
    using assms(1,2) by (cases s) simp_all
  have "rev s \<noteq> []" "\<not> isWhiteSpace (hd (rev s))"
    using assms(1,3) by (simp_all add: hd_rev)
  then have 2: "dropWhile isWhiteSpace (rev s) = rev s"
    by (cases "rev s") simp_all
  show ?thesis by (simp add: trim_def 1 2)
qed

lemma digits_normalized:
  assumes "ds \<noteq> []" "\<forall>c\<in>set ds. isDigit c"
  shows "trim (toLowerCase ds) = ds" "trim (toLowerCase (ds @ ''k'')) = ds @ ''k''"
    "trim (toLowerCase (ds @ ''K'')) = ds @ ''k''"
proof -
  have l: "toLowerCase ds = ds"
    unfolding toLowerCase_def using assms(2) by (simp add: digit_lower map_idI)
  have h: "\<not> isWhiteSpace (hd ds)" "\<not> isWhiteSpace (last ds)"
    using assms by (simp_all add: digit_not_white)
  show "trim (toLowerCase ds) = ds"
    unfolding l by (rule trim_no_white[OF assms(1) h])
  have k: "\<not> isWhiteSpace CHR ''k''" by (simp add: isWhiteSpace_def code_unit_def)
  have lk: "lowerChar CHR ''k'' = CHR ''k''" "lowerChar CHR ''K'' = CHR ''k''"
    by (simp_all add: lowerChar_eq_k)
  have t: "trim (ds @ ''k'') = ds @ ''k''"
    using assms(1) h(1) k by (intro trim_no_white) simp_all
  show "trim (toLowerCase (ds @ ''k'')) = ds @ ''k''"
    using l t lk by (simp add: toLowerCase_def)
  show "trim (toLowerCase (ds @ ''K'')) = ds @ ''k''"
    using l t lk by (simp add: toLowerCase_def)
qed

lemma parseInt10_digits:
  assumes "ds \<noteq> []" "\<forall>c\<in>set ds. isDigit c"
  shows "parseInt10 ds = toNumber False (of_nat (decimalValue ds))"
proof -
  have h: "isDigit (hd ds)" using assms by simp
  have 1: "trimStart ds = ds"
    unfolding trimStart_def using assms(1) digit_not_white[OF h] by (cases ds) simp_all
  have 2: "takeWhile isDigit ds = ds" using assms(2) by (simp add: takeWhile_eq_all_conv)
  show ?thesis
    using assms(1) digit_not_letter[OF h] by (simp add: parseInt10_def 1 2)
qed

lemma parseFloat_digits:
  assumes "ds \<noteq> []" "\<forall>c\<in>set ds. isDigit c"
  shows "parseFloat ds = toNumber False (of_nat (decimalValue ds))"
proof -
  have h: "isDigit (hd ds)" using assms by simp
  have 1: "trimStart ds = ds"
    unfolding trimStart_def using assms(1) digit_not_white[OF h] by (cases ds) simp_all
  have 2: "takeWhile isDigit ds = ds" "dropWhile isDigit ds = []"
    using assms(2) by (simp_all add: takeWhile_eq_all_conv)
  have 3: "take 8 ds \<noteq> ''Infinity''"
    using assms(1) digit_not_letter(4)[OF h] by (cases ds) auto
  show ?thesis
    using assms(1) digit_not_letter[OF h] 3
    by (simp add: parseFloat_def 1 2 exponentPart_def pow10_def)
qed

lemma parseNumericValue_digits:
  assumes "ds \<noteq> []" "\<forall>c\<in>set ds. isDigit c" "decimalValue ds < 2 ^ 53"
  shows "parseNumericValue ds = Num (of_nat (decimalValue ds))"
proof -
  have n: "trim (toLowerCase ds) = ds" by (rule digits_normalized(1)[OF assms(1,2)])
  have "last ds \<noteq> CHR ''k''" using assms(1,2) digit_not_letter(1) by simp
  then have k: "\<not> endsWith (trim (toLowerCase ds)) ''k''"
    by (simp add: n endsWith_single)
  have v: "parseNumericValue ds = logicalOr (toNumber False (of_nat (decimalValue ds))) (Num 0)"
    by (simp add: parseNumericValue_int[OF assms(1) k] n parseInt10_digits[OF assms(1,2)])
  show ?thesis
  proof (cases "decimalValue ds = 0")
    case True
    then show ?thesis
      by (simp add: v toNumber_zero signedZero_def logicalOr_def toBoolean_def)
  next
    case False
    then have "toNumber False (of_nat (decimalValue ds)) = Num (of_nat (decimalValue ds))"
      using toNumber_nat[of "decimalValue ds" False] assms(3) by simp
    then show ?thesis using False by (simp add: v logicalOr_def toBoolean_def)
  qed
qed

lemma Math_round_of_nat: "Math_round (Num (of_nat n)) = Num (of_nat n)"
proof -
  have "\<lfloor>(of_nat n :: rat) + 1 / 2\<rfloor> = int n" by linarith
  then show ?thesis by (simp add: Math_round_def Let_def)
qed

lemma parseNumericValue_digits_k:
  assumes "ds \<noteq> []" "\<forall>c\<in>set ds. isDigit c" "1000 * decimalValue ds < 2 ^ 53"
    and "value = ds @ ''k'' \<or> value = ds @ ''K''"
  shows "parseNumericValue value = Num (of_nat (1000 * decimalValue ds))"
proof -
  let ?v = "decimalValue ds"
  have ne: "value \<noteq> []" using assms(4) by auto
  have n: "trim (toLowerCase value) = ds @ ''k''"
    using assms(4) digits_normalized(2,3)[OF assms(1,2)] by auto
  have k: "endsWith (trim (toLowerCase value)) ''k''" by (simp add: n endsWith_single)
  have v: "parseNumericValue value
           = Math_round (multiply (toNumber False (of_nat ?v)) (Num 1000))"
    by (simp add: parseNumericValue_k[OF ne k] n parseFloat_digits[OF assms(1,2)])
  show ?thesis
  proof (cases "?v = 0")
    case True
    have "multiply (Num 0) (Num 1000) = Num 0"
      by (simp add: multiply_def isInfinite_def isNegative_def magnitude_def toNumber_zero
          signedZero_def)
    then show ?thesis
      using True Math_round_of_nat[of 0] by (simp add: v toNumber_zero signedZero_def)
  next
    case False
    have lt: "?v < 2 ^ 53" using assms(3) by linarith
    have a: "toNumber False (of_nat ?v) = Num (of_nat ?v)"
      using toNumber_nat[of ?v False] False lt by simp
    have "multiply (Num (of_nat ?v)) (Num 1000) = toNumber False (of_nat ?v * 1000)"
      using False by (simp add: multiply_Num_pos)
    also have "\<dots> = toNumber False (of_nat (1000 * ?v))" by (simp add: mult.commute)
    also have "\<dots> = Num (of_nat (1000 * ?v))"
      using toNumber_nat[of "1000 * ?v" False] False assms(3) by simp
    finally show ?thesis by (simp only: v a Math_round_of_nat)
  qed
qed

section \<open>The claims about the numeric normalizer\<close>

text \<open>
  C3. The numeric normalizer maps the empty string to 0, "0" to 0, "5" to 5, "1.2k" to
  1200, "2k" to 2000 and "abc" to 0. In general the test for a trailing "k" is made on the
  lower-cased and trimmed value, so it holds exactly when the trimmed value ends in "k"
  or "K". When it holds for a non-empty value, the result is what precedes the "k", parsed
  as a float, multiplied by 1000 and rounded by \<open>Math.round\<close>, whose result is an integer
  at most one half away from a finite argument; otherwise the result is the base-10
  integer parse of the normalized value, with 0 in place of a falsy parse. On a run of
  digits the result is the number the digits denote, and on a run of digits followed by
  "k" or "K" it is 1000 times that number, as long as the result is below \<open>2 ^ 53\<close>.
\<close>

theorem parseNumericValue_normalizer:
  "parseNumericValue '''' = Num 0
   \<and> parseNumericValue ''0'' = Num 0
   \<and> parseNumericValue ''5'' = Num 5
   \<and> parseNumericValue ''1.2k'' = Num 1200
   \<and> parseNumericValue ''2k'' = Num 2000
   \<and> parseNumericValue ''abc'' = Num 0
   \<and> (\<forall>value. endsWith (trim (toLowerCase value)) ''k'' \<longleftrightarrow>
         trim value \<noteq> [] \<and> (last (trim value) = CHR ''k'' \<or> last (trim value) = CHR ''K''))
   \<and> (\<forall>value. value \<noteq> [] \<longrightarrow> endsWith (trim (toLowerCase value)) ''k'' \<longrightarrow>
         parseNumericValue value =
         Math_round (multiply (parseFloat (butlast (trim (toLowerCase value)))) (Num 1000)))
   \<and> (\<forall>value. value \<noteq> [] \<longrightarrow> \<not> endsWith (trim (toLowerCase value)) ''k'' \<longrightarrow>
         parseNumericValue value = logicalOr (parseInt10 (trim (toLowerCase value))) (Num 0))
   \<and> (\<forall>q. \<exists>z. (Math_round (Num q) = Num (of_int z) \<or> Math_round (Num q) = NegZero \<and> z = 0)
              \<and> \<bar>of_int z - q\<bar> \<le> 1 / 2)
   \<and> (\<forall>ds. ds \<noteq> [] \<longrightarrow> (\<forall>c\<in>set ds. isDigit c) \<longrightarrow> decimalValue ds < 2 ^ 53 \<longrightarrow>
         parseNumericValue ds = Num (of_nat (decimalValue ds)))
   \<and> (\<forall>ds. ds \<noteq> [] \<longrightarrow> (\<forall>c\<in>set ds. isDigit c) \<longrightarrow> 1000 * decimalValue ds < 2 ^ 53 \<longrightarrow>
         parseNumericValue (ds @ ''k'') = Num (of_nat (1000 * decimalValue ds))
         \<and> parseNumericValue (ds @ ''K'') = Num (of_nat (1000 * decimalValue ds)))"
proof (intro conjI allI impI)
  show "parseNumericValue '''' = Num 0" by (rule pnv_empty)
  show "parseNumericValue ''0'' = Num 0" by (rule pnv_0)
  show "parseNumericValue ''5'' = Num 5" by (rule pnv_5)
  show "parseNumericValue ''1.2k'' = Num 1200" by (rule pnv_1_2k)
  show "parseNumericValue ''2k'' = Num 2000" by (rule pnv_2k)
  show "parseNumericValue ''abc'' = Num 0" by (rule pnv_abc)
next
  fix "value"
  show "endsWith (trim (toLowerCase value)) ''k'' \<longleftrightarrow>
         trim value \<noteq> [] \<and> (last (trim value) = CHR ''k'' \<or> last (trim value) = CHR ''K'')"
    by (rule endsWith_k_iff)
next
  fix "value" assume "value \<noteq> []" "endsWith (trim (toLowerCase value)) ''k''"
  then show "parseNumericValue value =
         Math_round (multiply (parseFloat (butlast (trim (toLowerCase value)))) (Num 1000))"
    by (rule parseNumericValue_k)
next
  fix "value" assume "value \<noteq> []" "\<not> endsWith (trim (toLowerCase value)) ''k''"
  then show "parseNumericValue value = logicalOr (parseInt10 (trim (toLowerCase value))) (Num 0)"
    by (rule parseNumericValue_int)
next
  fix q
  show "\<exists>z. (Math_round (Num q) = Num (of_int z) \<or> Math_round (Num q) = NegZero \<and> z = 0)
              \<and> \<bar>of_int z - q\<bar> \<le> 1 / 2"
    by (rule Math_round_nearest)
next
  fix ds assume "ds \<noteq> []" "\<forall>c\<in>set ds. isDigit c" "decimalValue ds < 2 ^ 53"
  then show "parseNumericValue ds = Num (of_nat (decimalValue ds))"
    by (rule parseNumericValue_digits)
next
  fix ds assume a: "ds \<noteq> []" "\<forall>c\<in>set ds. isDigit c" "1000 * decimalValue ds < 2 ^ 53"
  show "parseNumericValue (ds @ ''k'') = Num (of_nat (1000 * decimalValue ds))"
    by (rule parseNumericValue_digits_k[OF a]) simp
  show "parseNumericValue (ds @ ''K'') = Num (of_nat (1000 * decimalValue ds))"
    by (rule parseNumericValue_digits_k[OF a]) simp
qed

theorem parseNumericValue_normalizer_witness:
  "''2K'' \<noteq> [] \<and> endsWith (trim (toLowerCase ''2K'')) ''k''
   \<and> parseNumericValue ''2K'' = Math_round (multiply (parseFloat ''2'') (Num 1000))
   \<and> '' 42'' \<noteq> [] \<and> \<not> endsWith (trim (toLowerCase '' 42'')) ''k''
   \<and> parseNumericValue '' 42'' = logicalOr (parseInt10 ''42'') (Num 0)
   \<and> ''42'' \<noteq> [] \<and> isDigit CHR ''4'' \<and> isDigit CHR ''2'' \<and> decimalValue ''42'' < 2 ^ 53
   \<and> parseNumericValue ''42'' = Num 42
   \<and> 1000 * decimalValue ''42'' < 2 ^ 53
   \<and> parseNumericValue ''42k'' = Num 42000 \<and> parseNumericValue ''42K'' = Num 42000"
proof -
  note inst = parseNumericValue_normalizer
  have n1: "trim (toLowerCase ''2K'') = ''2k''"
    by (simp add: trim_def toLowerCase_def char_defs char_of_def bit_Suc_0_iff)
  have n2: "trim (toLowerCase '' 42'') = ''42''"
    by (simp add: trim_def toLowerCase_def char_defs)
  have k: "endsWith (trim (toLowerCase ''2K'')) ''k''"
    by (simp add: n1 endsWith_def)
  have i: "\<not> endsWith (trim (toLowerCase '' 42'')) ''k''"
    by (simp add: n2 endsWith_def)
  have d: "''42'' \<noteq> []" "\<forall>c\<in>set ''42''. isDigit c" "decimalValue ''42'' = 42"
    by (simp_all add: char_defs decimalValue_def)
  then have b: "decimalValue ''42'' < 2 ^ 53" "1000 * decimalValue ''42'' < 2 ^ 53"
    by simp_all
  from inst
  have "''2K'' \<noteq> [] \<longrightarrow> endsWith (trim (toLowerCase ''2K'')) ''k'' \<longrightarrow>
          parseNumericValue ''2K'' =
          Math_round (multiply (parseFloat (butlast (trim (toLowerCase ''2K'')))) (Num 1000))"
    and "'' 42'' \<noteq> [] \<longrightarrow> \<not> endsWith (trim (toLowerCase '' 42'')) ''k'' \<longrightarrow>
          parseNumericValue '' 42'' = logicalOr (parseInt10 (trim (toLowerCase '' 42''))) (Num 0)"
    by blast+
  with k i have 1: "parseNumericValue ''2K'' = Math_round (multiply (parseFloat ''2'') (Num 1000))"
    and 2: "parseNumericValue '' 42'' = logicalOr (parseInt10 ''42'') (Num 0)"
    by (simp_all add: n1 n2)
  from inst d(1,2) b
  have "parseNumericValue ''42'' = Num (of_nat (decimalValue ''42''))"
    and "parseNumericValue (''42'' @ ''k'') = Num (of_nat (1000 * decimalValue ''42''))"
    and "parseNumericValue (''42'' @ ''K'') = Num (of_nat (1000 * decimalValue ''42''))"
    by blast+
  then have 3: "parseNumericValue ''42'' = Num 42" "parseNumericValue ''42k'' = Num 42000"
    "parseNumericValue ''42K'' = Num 42000"
    by (simp_all add: d(3))
  have d': "isDigit CHR ''4''" "isDigit CHR ''2''" using d(2) by simp_all
  show ?thesis using k i 1 2 d(1) d' b 3 by simp
qed

text \<open>
  C4, as the claim states it, fails: the integer parse of "3,400" does not fail, so the
  normalizer does not yield 0 there.
\<close>

theorem parseNumericValue_3_400_counterexample:
  "parseNumericValue ''3,400'' \<noteq> Num 0"
  by (simp add: pnv_3_400)

text \<open>
  C4, amended. The normalizer applied to "3,400" parses the digits before the comma and
  yields 3: \<open>parseInt\<close> stops at the first character that is not a digit.
\<close>

theorem parseNumericValue_3_400:
  "parseInt10 (trim (toLowerCase ''3,400'')) = Num 3 \<and> parseNumericValue ''3,400'' = Num 3"
proof -
  have n: "trim (toLowerCase ''3,400'') = ''3,400''"
    by (simp add: trim_def toLowerCase_def char_defs)
  have "parseInt10 ''3,400'' = Num 3"
    by (simp add: parseInt10_def trimStart_def char_defs decimalValue_def toNumber_numeral)
  then show ?thesis by (simp add: n pnv_3_400)
qed

text \<open>
  C10. There is a non-empty input ending in "k" whose prefix does not parse as a float,
  namely "xk", on which the normalizer does not return 0 but \<open>NaN\<close>. In general the branch
  for "k" hands an unparseable prefix on as \<open>NaN\<close>, while the integer branch turns an
  unparseable value into 0.
\<close>

theorem parseNumericValue_k_branch_NaN:
  "''xk'' \<noteq> [] \<and> endsWith ''xk'' ''k'' \<and> parseFloat (butlast ''xk'') = NaN
   \<and> parseNumericValue ''xk'' = NaN \<and> parseNumericValue ''xk'' \<noteq> Num 0
   \<and> (\<forall>value. value \<noteq> [] \<longrightarrow> endsWith (trim (toLowerCase value)) ''k'' \<longrightarrow>
         parseFloat (butlast (trim (toLowerCase value))) = NaN \<longrightarrow>
         parseNumericValue value = NaN)
   \<and> (\<forall>value. value \<noteq> [] \<longrightarrow> \<not> endsWith (trim (toLowerCase value)) ''k'' \<longrightarrow>
         parseInt10 (trim (toLowerCase value)) = NaN \<longrightarrow>
         parseNumericValue value = Num 0)"
proof -
  have "parseFloat (butlast ''xk'') = NaN"
    by (simp add: parseFloat_def trimStart_def char_defs)
  moreover have "endsWith ''xk'' ''k''" by (simp add: endsWith_def)
  moreover have "\<And>value. value \<noteq> [] \<Longrightarrow> endsWith (trim (toLowerCase value)) ''k'' \<Longrightarrow>
         parseFloat (butlast (trim (toLowerCase value))) = NaN \<Longrightarrow>
         parseNumericValue value = NaN"
    by (simp add: parseNumericValue_k multiply_def Math_round_def)
  moreover have "\<And>value. value \<noteq> [] \<Longrightarrow> \<not> endsWith (trim (toLowerCase value)) ''k'' \<Longrightarrow>
         parseInt10 (trim (toLowerCase value)) = NaN \<Longrightarrow>
         parseNumericValue value = Num 0"
    by (simp add: parseNumericValue_int logicalOr_def toBoolean_def)
  ultimately show ?thesis by (simp add: pnv_xk)
qed

theorem parseNumericValue_k_branch_NaN_witness:
  "''K'' \<noteq> [] \<and> endsWith (trim (toLowerCase ''K'')) ''k''
   \<and> parseFloat (butlast (trim (toLowerCase ''K''))) = NaN
   \<and> parseNumericValue ''K'' = NaN
   \<and> ''n/a'' \<noteq> [] \<and> \<not> endsWith (trim (toLowerCase ''n/a'')) ''k''
   \<and> parseInt10 (trim (toLowerCase ''n/a'')) = NaN
   \<and> parseNumericValue ''n/a'' = Num 0"
proof -
  have n1: "trim (toLowerCase ''K'') = ''k''"
    by (simp add: trim_def toLowerCase_def char_defs char_of_def bit_Suc_0_iff)
  have n2: "trim (toLowerCase ''n/a'') = ''n/a''"
    by (simp add: trim_def toLowerCase_def char_defs)
  have k: "endsWith (trim (toLowerCase ''K'')) ''k''"
    by (simp add: n1 endsWith_def)
  have pf: "parseFloat (butlast (trim (toLowerCase ''K''))) = NaN"
    by (simp add: n1 parseFloat_def trimStart_def)
  have i: "\<not> endsWith (trim (toLowerCase ''n/a'')) ''k''"
    by (simp add: n2 endsWith_def)
  have pi: "parseInt10 (trim (toLowerCase ''n/a'')) = NaN"
    by (simp add: n2 parseInt10_def trimStart_def char_defs)
  from parseNumericValue_k_branch_NaN
  have "''K'' \<noteq> [] \<longrightarrow> endsWith (trim (toLowerCase ''K'')) ''k'' \<longrightarrow>
          parseFloat (butlast (trim (toLowerCase ''K''))) = NaN \<longrightarrow>
          parseNumericValue ''K'' = NaN"
    and "''n/a'' \<noteq> [] \<longrightarrow> \<not> endsWith (trim (toLowerCase ''n/a'')) ''k'' \<longrightarrow>
          parseInt10 (trim (toLowerCase ''n/a'')) = NaN \<longrightarrow>
          parseNumericValue ''n/a'' = Num 0"
    by blast+
  with k pf i pi show ?thesis by simp
qed

section \<open>The claims about the extractor\<close>

text \<open>
  C5. When the profile page of a user is retrieved and holds no pinned items, fetching the
  pinned repositories returns the empty list and raises no error. Whenever it does raise
  an error, the profile page itself could not be retrieved: the fetch was rejected, the
  status was not a success, or the body could not be read.
\<close>

theorem getPinnedRepos_no_pinned_items:
  "(\<forall>doc. loadHTML w (''https://github.com/'' @ username) = Inr doc \<longrightarrow>
          pinnedItems doc = [] \<longrightarrow> getPinnedRepos w username = Inr [])
   \<and> (\<forall>e. getPinnedRepos w username = Inl e \<longrightarrow>
          loadHTML w (''https://github.com/'' @ username) = Inl e
          \<and> ((\<exists>e'. fetch w (''https://github.com/'' @ username) = Rejected e')
             \<or> (\<exists>r. fetch w (''https://github.com/'' @ username) = Resolved r
                    \<and> (\<not> ok r \<or> bodyText r = None))))"
proof (intro conjI allI impI)
  fix doc
  assume "loadHTML w (''https://github.com/'' @ username) = Inr doc" "pinnedItems doc = []"
  then show "getPinnedRepos w username = Inr []"
    by (simp add: getPinnedRepos_def)
next
  fix e
  assume "getPinnedRepos w username = Inl e"
  then show "loadHTML w (''https://github.com/'' @ username) = Inl e"
    by (simp only: getPinnedRepos_Inl_iff)
  then show "(\<exists>e'. fetch w (''https://github.com/'' @ username) = Rejected e')
             \<or> (\<exists>r. fetch w (''https://github.com/'' @ username) = Resolved r
                    \<and> (\<not> ok r \<or> bodyText r = None))"
    by (simp only: loadHTML_Inl_iff)
qed

theorem getPinnedRepos_no_pinned_items_witness:
  "loadHTML sampleWorld (''https://github.com/'' @ ''nobody'')
     = Inr \<lparr> pinnedItems = [], borderGridHref = None \<rparr>
   \<and> pinnedItems \<lparr> pinnedItems = [], borderGridHref = None \<rparr> = []
   \<and> getPinnedRepos sampleWorld ''nobody'' = Inr []
   \<and> getPinnedRepos offlineWorld ''octocat''
       = Inl (Error ''Failed to load URL: https://github.com/octocat'')
   \<and> loadHTML offlineWorld (''https://github.com/'' @ ''octocat'')
       = Inl (Error ''Failed to load URL: https://github.com/octocat'')
   \<and> (\<exists>e'. fetch offlineWorld (''https://github.com/'' @ ''octocat'') = Rejected e')"
proof -
  have l: "loadHTML sampleWorld (''https://github.com/'' @ ''nobody'')
            = Inr \<lparr> pinnedItems = [], borderGridHref = None \<rparr>"
    using loadHTML_sample_nobody by simp
  have g: "getPinnedRepos offlineWorld ''octocat''
            = Inl (Error ''Failed to load URL: https://github.com/octocat'')"
    by (simp add: getPinnedRepos_def loadHTML_offline)
  from getPinnedRepos_no_pinned_items[of sampleWorld "''nobody''"] l
  have 1: "getPinnedRepos sampleWorld ''nobody'' = Inr []" by simp
  from getPinnedRepos_no_pinned_items[of offlineWorld "''octocat''"] g
  have 2: "loadHTML offlineWorld (''https://github.com/'' @ ''octocat'')
            = Inl (Error ''Failed to load URL: https://github.com/octocat'')" by blast
  have 3: "\<exists>e'. fetch offlineWorld (''https://github.com/'' @ ''octocat'') = Rejected e'"
    by (simp add: offlineWorld_def)
  show ?thesis using l g 1 2 3 by simp
qed

text \<open>
  C6. The website discoverer never raises: for every repository URL it resolves, and it
  resolves with an absent result when the page cannot be loaded. In the list of a user
  whose profile page loads there is one record for each pinned item, and the record of
  an item whose repository page cannot be loaded is the record of that item with the
  website absent: it differs from what any other outcome of the discovery gives in the
  website field only.
\<close>

theorem getRepoWebsite_never_raises:
  "(\<exists>r. getRepoWebsite w repoUrl = Inr r)
   \<and> (\<forall>e. loadHTML w repoUrl = Inl e \<longrightarrow> getRepoWebsite w repoUrl = Inr None)
   \<and> (\<forall>doc. loadHTML w (''https://github.com/'' @ username) = Inr doc \<longrightarrow>
         (\<exists>repos. getPinnedRepos w username = Inr repos
            \<and> length repos = length (pinnedItems doc)
            \<and> (\<forall>i e. i < length repos \<longrightarrow>
                  loadHTML w (''https://github.com/'' @ username @ ''/''
                                @ trim (repoText (pinnedItems doc ! i))) = Inl e \<longrightarrow>
                  repos ! i = repoRecord username (pinnedItems doc ! i) None
                  \<and> (\<forall>site. repos ! i
                         = (repoRecord username (pinnedItems doc ! i) site)\<lparr>website := None\<rparr>))))"
proof (intro conjI allI impI)
  show "\<exists>r. getRepoWebsite w repoUrl = Inr r"
    by (simp add: getRepoWebsite_Inr)
next
  fix e assume "loadHTML w repoUrl = Inl e"
  then show "getRepoWebsite w repoUrl = Inr None"
    by (simp add: getRepoWebsite_Inr)
next
  fix doc assume l: "loadHTML w (''https://github.com/'' @ username) = Inr doc"
  let ?site = "\<lambda>item. case loadHTML w (''https://github.com/'' @ username @ ''/''
                                          @ trim (repoText item)) of
                         Inr d \<Rightarrow> map_option trim (borderGridHref d)
                       | Inl e \<Rightarrow> None"
  let ?repos = "map (\<lambda>item. repoRecord username item (?site item)) (pinnedItems doc)"
  have g: "getPinnedRepos w username = Inr ?repos"
    by (rule getPinnedRepos_loaded[OF l])
  have "\<forall>i e. i < length ?repos \<longrightarrow>
           loadHTML w (''https://github.com/'' @ username @ ''/''
                         @ trim (repoText (pinnedItems doc ! i))) = Inl e \<longrightarrow>
           ?repos ! i = repoRecord username (pinnedItems doc ! i) None
           \<and> (\<forall>site. ?repos ! i
                  = (repoRecord username (pinnedItems doc ! i) site)\<lparr>website := None\<rparr>)"
    by (simp add: repoRecord_def Let_def)
  with g show "\<exists>repos. getPinnedRepos w username = Inr repos
            \<and> length repos = length (pinnedItems doc)
            \<and> (\<forall>i e. i < length repos \<longrightarrow>
                  loadHTML w (''https://github.com/'' @ username @ ''/''
                                @ trim (repoText (pinnedItems doc ! i))) = Inl e \<longrightarrow>
                  repos ! i = repoRecord username (pinnedItems doc ! i) None
                  \<and> (\<forall>site. repos ! i
                         = (repoRecord username (pinnedItems doc ! i) site)\<lparr>website := None\<rparr>))"
    by (intro exI[of _ ?repos] conjI) simp_all
qed

theorem getRepoWebsite_never_raises_witness:
  "loadHTML sampleWorld ''https://github.com/octocat/spoon''
     = Inl (Error ''Failed to load URL: https://github.com/octocat/spoon'')
   \<and> getRepoWebsite sampleWorld ''https://github.com/octocat/spoon'' = Inr None
   \<and> loadHTML sampleWorld (''https://github.com/'' @ ''octocat'')
       = Inr \<lparr> pinnedItems = [sampleItem1, sampleItem2], borderGridHref = None \<rparr>
   \<and> (\<exists>repos. getPinnedRepos sampleWorld ''octocat'' = Inr repos
         \<and> length repos = 2
         \<and> repos ! 1 = repoRecord ''octocat'' sampleItem2 None
         \<and> repo (repos ! 1) = ''spoon''
         \<and> website (repos ! 1) = None)"
proof -
  let ?doc = "\<lparr> pinnedItems = [sampleItem1, sampleItem2], borderGridHref = None \<rparr>"
  note inst = getRepoWebsite_never_raises[of sampleWorld "''https://github.com/octocat/spoon''"
      "''octocat''"]
  have s: "loadHTML sampleWorld ''https://github.com/octocat/spoon''
            = Inl (Error ''Failed to load URL: https://github.com/octocat/spoon'')"
    by (rule loadHTML_sample_spoon)
  have p: "loadHTML sampleWorld (''https://github.com/'' @ ''octocat'') = Inr ?doc"
    using loadHTML_sample_profile by simp
  have s': "loadHTML sampleWorld (''https://github.com/'' @ ''octocat'' @ ''/''
                                   @ trim (repoText (pinnedItems ?doc ! 1)))
            = Inl (Error ''Failed to load URL: https://github.com/octocat/spoon'')"
    using s by (simp add: sampleItem2_def trim_sample)
  from inst s have 1: "getRepoWebsite sampleWorld ''https://github.com/octocat/spoon'' = Inr None"
    by blast
  from inst p obtain repos where r: "getPinnedRepos sampleWorld ''octocat'' = Inr repos"
    "length repos = length (pinnedItems ?doc)"
    "\<forall>i e. i < length repos \<longrightarrow>
        loadHTML sampleWorld (''https://github.com/'' @ ''octocat'' @ ''/''
                                @ trim (repoText (pinnedItems ?doc ! i))) = Inl e \<longrightarrow>
        repos ! i = repoRecord ''octocat'' (pinnedItems ?doc ! i) None
        \<and> (\<forall>site. repos ! i
               = (repoRecord ''octocat'' (pinnedItems ?doc ! i) site)\<lparr>website := None\<rparr>)"
    by blast
  have len: "length repos = 2" using r(2) by simp
  then have "(1::nat) < length repos" by simp
  with r(3) s' have "repos ! 1 = repoRecord ''octocat'' (pinnedItems ?doc ! 1) None" by blast
  then have 2: "repos ! 1 = repoRecord ''octocat'' sampleItem2 None" by simp
  have 3: "repo (repoRecord ''octocat'' sampleItem2 None) = ''spoon''"
    "website (repoRecord ''octocat'' sampleItem2 None) = None"
    by (simp_all add: repoRecord_def Let_def sampleItem2_def trim_sample)
  show ?thesis using s 1 p r(1) len 2 3 by simp
qed

text \<open>
  C7. In every list that fetching the pinned repositories returns, every record has the
  queried user as its owner, the link \<open>https://github.com/{owner}/{repo}\<close> and the image
  \<open>https://opengraph.githubassets.com/1/{owner}/{repo}\<close>. Both fields are strings of the
  record, present in every record, and functions of owner and repo alone.
\<close>

theorem link_and_image_derived:
  assumes "getPinnedRepos w username = Inr repos" and "r \<in> set repos"
  shows "owner r = username
         \<and> link r = ''https://github.com/'' @ owner r @ ''/'' @ repo r
         \<and> image r = ''https://opengraph.githubassets.com/1/'' @ owner r @ ''/'' @ repo r"
proof (cases "loadHTML w (''https://github.com/'' @ username)")
  case (Inl e)
  then show ?thesis using assms(1) by (simp add: getPinnedRepos_not_loaded)
next
  case (Inr doc)
  from getPinnedRepos_loaded[OF Inr] assms
  obtain item site where "r = repoRecord username item site" by auto
  then show ?thesis by (simp add: repoRecord_def Let_def)
qed

theorem link_and_image_derived_witness:
  "getPinnedRepos sampleWorld ''octocat''
     = Inr [repoRecord ''octocat'' sampleItem1 (Some ''https://example.com''),
            repoRecord ''octocat'' sampleItem2 None]
   \<and> repoRecord ''octocat'' sampleItem1 (Some ''https://example.com'')
       \<in> set [repoRecord ''octocat'' sampleItem1 (Some ''https://example.com''),
              repoRecord ''octocat'' sampleItem2 None]
   \<and> owner (repoRecord ''octocat'' sampleItem1 (Some ''https://example.com'')) = ''octocat''
   \<and> repo (repoRecord ''octocat'' sampleItem1 (Some ''https://example.com'')) = ''hello''
   \<and> link (repoRecord ''octocat'' sampleItem1 (Some ''https://example.com''))
       = ''https://github.com/octocat/hello''
   \<and> image (repoRecord ''octocat'' sampleItem1 (Some ''https://example.com''))
       = ''https://opengraph.githubassets.com/1/octocat/hello''"
proof -
  let ?r = "repoRecord ''octocat'' sampleItem1 (Some ''https://example.com'')"
  have m: "?r \<in> set [?r, repoRecord ''octocat'' sampleItem2 None]" by simp
  have n: "repo ?r = ''hello''" "owner ?r = ''octocat''"
    by (simp_all add: repoRecord_def Let_def sampleItem1_def trim_sample)
  from link_and_image_derived[OF getPinnedRepos_sample m]
  show ?thesis using getPinnedRepos_sample n by simp
qed

section \<open>The claims about the cache and the handler\<close>

text \<open>
  C1. Let a user have a cache entry, and let the fetch for that user fail. A failed
  synchronous fetch is answered with the error and leaves any cache as it is, and so does
  a failed background refresh. Hence a request for the user served to its end leaves every
  entry of the cache with its value, with \<open>refresh=true\<close> it answers with status 500 and
  the message of the error and does not touch the cache at all, and a following request
  without \<open>refresh\<close> is answered with the list cached before.
\<close>

theorem failed_fetch_keeps_entry:
  assumes "map_of c username = Some repos" and "username \<noteq> []"
    and "getPinnedRepos w username = Inl e"
    and "httpMethod request \<noteq> ''OPTIONS''" and "usernameParam request = Some username"
    and "httpMethod request' \<noteq> ''OPTIONS''" and "usernameParam request' = Some username"
    and "refreshParam request' \<noteq> Some ''true''"
  shows "(\<forall>c0. handler_resumed username (Inl e) c0 = (errorResponse e, c0))
         \<and> (\<forall>c0. refresh_settled username (Inl e) c0 = c0)
         \<and> (refreshParam request = Some ''true'' \<longrightarrow>
               settle w (handler request c) = (errorResponse e, c)
               \<and> status (errorResponse e) = 500
               \<and> body (errorResponse e)
                   = ErrorJson ''Failed to fetch pinned repositories'' (message e))
         \<and> (\<forall>k. map_of (snd (settle w (handler request c))) k = map_of c k)
         \<and> (\<exists>c'. handler request' (snd (settle w (handler request c)))
                   = (RepliedRefreshing (jsonResponse (Some repos)) username, c'))
         \<and> body (jsonResponse (Some repos)) = ReposJson repos"
proof -
  let ?c1 = "snd (settle w (handler request c))"
  have 1: "\<forall>c0. handler_resumed username (Inl e) c0 = (errorResponse e, c0)"
    by (simp add: handler_resumed_def)
  have 2: "\<forall>c0. refresh_settled username (Inl e) c0 = c0"
    by (simp add: refresh_settled_def)
  have 3: "settle w (handler request c) = (errorResponse e, c)"
    if "refreshParam request = Some ''true''"
    using that assms(2-5) by (simp add: handler_fetches settle_def handler_resumed_def)
  have 4: "map_of ?c1 k = map_of c k" for k
  proof (cases "refreshParam request = Some ''true''")
    case True
    then show ?thesis by (simp add: 3)
  next
    case False
    from handler_hit[OF assms(4,5,2) False assms(1)] assms(3)
    show ?thesis
      by (simp add: settle_def refresh_settled_def map_of_filter_key assms(1))
  qed
  then have "map_of ?c1 username = Some repos" by (simp add: assms(1))
  from handler_hit[OF assms(6,7,2,8) this]
  have 5: "\<exists>c'. handler request' ?c1
                 = (RepliedRefreshing (jsonResponse (Some repos)) username, c')"
    by blast
  show ?thesis
    using 1 2 3 4 5 by (simp add: errorResponse_def jsonResponse_def)
qed

theorem failed_fetch_keeps_entry_witness:
  "map_of sampleCache ''octocat'' = Some [repoRecord ''octocat'' sampleItem2 None]
   \<and> getPinnedRepos offlineWorld ''octocat''
       = Inl (Error ''Failed to load URL: https://github.com/octocat'')
   \<and> settle offlineWorld (handler (sampleRequest True) sampleCache)
       = (errorResponse (Error ''Failed to load URL: https://github.com/octocat''), sampleCache)
   \<and> (\<exists>c'. handler (sampleRequest False)
              (snd (settle offlineWorld (handler (sampleRequest True) sampleCache)))
            = (RepliedRefreshing
                 (jsonResponse (Some [repoRecord ''octocat'' sampleItem2 None])) ''octocat'', c'))
   \<and> (\<exists>c'. handler (sampleRequest False)
              (snd (settle offlineWorld (handler (sampleRequest False) sampleCache)))
            = (RepliedRefreshing
                 (jsonResponse (Some [repoRecord ''octocat'' sampleItem2 None])) ''octocat'', c'))"
proof -
  let ?e = "Error ''Failed to load URL: https://github.com/octocat''"
  have m: "map_of sampleCache ''octocat'' = Some [repoRecord ''octocat'' sampleItem2 None]"
    by (simp add: sampleCache_def)
  have n: "''octocat'' \<noteq> []" by simp
  have g: "getPinnedRepos offlineWorld ''octocat'' = Inl ?e"
    by (simp add: getPinnedRepos_def loadHTML_offline)
  have r: "httpMethod (sampleRequest b) \<noteq> ''OPTIONS''"
    "usernameParam (sampleRequest b) = Some ''octocat''" for b
    by (simp_all add: sampleRequest_def)
  have f: "refreshParam (sampleRequest False) \<noteq> Some ''true''"
    "refreshParam (sampleRequest True) = Some ''true''"
    by (simp_all add: sampleRequest_def)
  from failed_fetch_keeps_entry[OF m n g r(1,2) r(1,2) f(1), of True] f(2)
  have 1: "settle offlineWorld (handler (sampleRequest True) sampleCache) = (errorResponse ?e, sampleCache)"
    and 2: "\<exists>c'. handler (sampleRequest False)
              (snd (settle offlineWorld (handler (sampleRequest True) sampleCache)))
            = (RepliedRefreshing
                 (jsonResponse (Some [repoRecord ''octocat'' sampleItem2 None])) ''octocat'', c')"
    by blast+
  from failed_fetch_keeps_entry[OF m n g r(1,2) r(1,2) f(1), of False]
  have 3: "\<exists>c'. handler (sampleRequest False)
              (snd (settle offlineWorld (handler (sampleRequest False) sampleCache)))
            = (RepliedRefreshing
                 (jsonResponse (Some [repoRecord ''octocat'' sampleItem2 None])) ''octocat'', c')"
    by blast
  show ?thesis using m g 1 2 3 by blast
qed

text \<open>
  C2. A request that names a user with a cache entry and does not set \<open>refresh\<close> is
  answered, before anything is fetched, with status 200 and exactly the record list
  cached for that user; the handler leaves a refresh of that user in flight, and whatever
  that refresh brings, the answer of the request served to its end is the same.
\<close>

theorem cache_hit_serves_cached:
  assumes "httpMethod request \<noteq> ''OPTIONS''" and "usernameParam request = Some username"
    and "username \<noteq> []" and "refreshParam request \<noteq> Some ''true''"
    and "map_of c username = Some repos"
  shows "cache_has c username
         \<and> (\<exists>c'. handler request c = (RepliedRefreshing (jsonResponse (Some repos)) username, c'))
         \<and> status (jsonResponse (Some repos)) = 200
         \<and> body (jsonResponse (Some repos)) = ReposJson repos
         \<and> (\<forall>w. fst (settle w (handler request c)) = jsonResponse (Some repos))"
  using assms handler_hit[OF assms]
  by (simp add: cache_has_def jsonResponse_def settle_def)

theorem cache_hit_serves_cached_witness:
  "httpMethod (sampleRequest False) \<noteq> ''OPTIONS''
   \<and> usernameParam (sampleRequest False) = Some ''octocat''
   \<and> refreshParam (sampleRequest False) \<noteq> Some ''true''
   \<and> map_of sampleCache ''octocat'' = Some [repoRecord ''octocat'' sampleItem2 None]
   \<and> fst (settle sampleWorld (handler (sampleRequest False) sampleCache))
       = jsonResponse (Some [repoRecord ''octocat'' sampleItem2 None])
   \<and> fst (settle offlineWorld (handler (sampleRequest False) sampleCache))
       = jsonResponse (Some [repoRecord ''octocat'' sampleItem2 None])
   \<and> body (jsonResponse (Some [repoRecord ''octocat'' sampleItem2 None]))
       = ReposJson [repoRecord ''octocat'' sampleItem2 None]"
proof -
  have m: "map_of sampleCache ''octocat'' = Some [repoRecord ''octocat'' sampleItem2 None]"
    by (simp add: sampleCache_def)
  have n: "''octocat'' \<noteq> []" by simp
  have r: "httpMethod (sampleRequest False) \<noteq> ''OPTIONS''"
    "usernameParam (sampleRequest False) = Some ''octocat''"
    "refreshParam (sampleRequest False) \<noteq> Some ''true''"
    by (simp_all add: sampleRequest_def)
  from cache_hit_serves_cached[OF r(1,2) n r(3) m]
  show ?thesis using m r by blast
qed

text \<open>
  C9. The capacity of the cache is 500. Whatever requests arrive and however the fetches
  settle, the cache holds at most 500 entries, with distinct user names. The entries are
  kept in the order of their last use: storing or reading an entry moves it to the front
  and leaves the others in their order. Storing a new user in a cache of 500 entries
  removes exactly the entry least recently used, the last one of the list: it is gone and
  every other entry is kept; a later request for the evicted user without \<open>refresh\<close>
  finds no entry and waits for a fetch. Storing a user into a cache with room, or one that
  is cached already, removes no other entry. So after 501 distinct users have been stored
  in an empty cache, the first of them is gone and the other 500 are cached.
\<close>

theorem cache_capacity_lru:
  "maxSize = 500
   \<and> (\<forall>evs. length (run [] evs) \<le> 500 \<and> distinct (map fst (run [] evs)))
   \<and> (\<forall>c k v. map fst (cache_set c k v) = take 500 (k # filter (\<lambda>x. x \<noteq> k) (map fst c)))
   \<and> (\<forall>c k. cache_has c k \<longrightarrow>
         map fst (snd (cache_get c k)) = k # filter (\<lambda>x. x \<noteq> k) (map fst c))
   \<and> (\<forall>c k v. distinct (map fst c) \<longrightarrow> length c = 500 \<longrightarrow> k \<notin> fst ` set c \<longrightarrow>
         cache_set c k v = (k, v) # butlast c
         \<and> \<not> cache_has (cache_set c k v) (fst (last c))
         \<and> (\<forall>k'. k' \<noteq> k \<longrightarrow> k' \<noteq> fst (last c) \<longrightarrow>
               map_of (cache_set c k v) k' = map_of c k')
         \<and> (\<forall>request::request. httpMethod request \<noteq> ''OPTIONS'' \<longrightarrow>
               usernameParam request = Some (fst (last c)) \<longrightarrow> fst (last c) \<noteq> [] \<longrightarrow>
               handler request (cache_set c k v) = (Awaiting (fst (last c)), cache_set c k v)))
   \<and> (\<forall>c k v k'. length c \<le> 500 \<longrightarrow> (length c < 500 \<or> k \<in> fst ` set c) \<longrightarrow> k' \<noteq> k \<longrightarrow>
         map_of (cache_set c k v) k' = map_of c k')
   \<and> (\<forall>ks k f. distinct (ks @ [k]) \<longrightarrow> length ks = 500 \<longrightarrow>
         \<not> cache_has (foldl (\<lambda>c k. cache_set c k (f k)) [] (ks @ [k])) (hd ks)
         \<and> (\<forall>k'\<in>set (tl ks) \<union> {k}.
               map_of (foldl (\<lambda>c k. cache_set c k (f k)) [] (ks @ [k])) k' = Some (f k'))
         \<and> length (foldl (\<lambda>c k. cache_set c k (f k)) [] (ks @ [k])) = 500)"
proof (intro conjI allI impI)
  show "maxSize = 500" by (simp add: maxSize_def)
next
  fix evs
  from run_invariant[of "[]" evs]
  show "length (run [] evs) \<le> 500" "distinct (map fst (run [] evs))"
    by (simp_all add: maxSize_def)
next
  fix c :: cache and k v
  show "map fst (cache_set c k v) = take 500 (k # filter (\<lambda>x. x \<noteq> k) (map fst c))"
    using cache_keys_after_set[of c k v] by (simp add: maxSize_def)
next
  fix c :: cache and k
  assume "cache_has c k"
  then show "map fst (snd (cache_get c k)) = k # filter (\<lambda>x. x \<noteq> k) (map fst c)"
    by (rule cache_keys_after_get)
next
  fix c :: cache and k v
  assume a: "distinct (map fst c)" "length c = 500" "k \<notin> fst ` set c"
  then have l: "length c = maxSize" by (simp add: maxSize_def)
  show "cache_set c k v = (k, v) # butlast c"
    by (rule cache_set_evicts_last[OF l a(3)])
  show gone: "\<not> cache_has (cache_set c k v) (fst (last c))"
    by (rule evicted_is_absent[OF a(1) l a(3)])
  {
    fix k' assume "k' \<noteq> k" "k' \<noteq> fst (last c)"
    then show "map_of (cache_set c k v) k' = map_of c k'"
      by (rule survivors_kept[OF l a(3)])
  }
  {
    fix request :: request
    assume "httpMethod request \<noteq> ''OPTIONS''" "usernameParam request = Some (fst (last c))"
      "fst (last c) \<noteq> []"
    then show "handler request (cache_set c k v) = (Awaiting (fst (last c)), cache_set c k v)"
      using gone by (intro handler_fetches) simp_all
  }
next
  fix c :: cache and k v k'
  assume "length c \<le> 500" "length c < 500 \<or> k \<in> fst ` set c" "k' \<noteq> k"
  then show "map_of (cache_set c k v) k' = map_of c k'"
    by (intro cache_set_keeps_others) (auto simp: maxSize_def)
next
  fix ks :: "string list" and k and f :: "string \<Rightarrow> PinnedRepo list"
  assume a: "distinct (ks @ [k])" "length ks = 500"
  then have l: "length ks = maxSize" by (simp add: maxSize_def)
  show "\<not> cache_has (foldl (\<lambda>c k. cache_set c k (f k)) [] (ks @ [k])) (hd ks)"
    by (rule overfill_cache_members(1)[OF a(1) l])
  show "\<forall>k'\<in>set (tl ks) \<union> {k}.
           map_of (foldl (\<lambda>c k. cache_set c k (f k)) [] (ks @ [k])) k' = Some (f k')"
    by (rule overfill_cache_members(2)[OF a(1) l])
  show "length (foldl (\<lambda>c k. cache_set c k (f k)) [] (ks @ [k])) = 500"
    using overfill_cache_members(3)[OF a(1) l, of f] by (simp add: maxSize_def)
qed

theorem cache_capacity_lru_witness:
  "distinct (map fst fullCache) \<and> length fullCache = 500 \<and> ''b'' \<notin> fst ` set fullCache
   \<and> fst (last fullCache) = replicate 500 CHR ''a''
   \<and> cache_set fullCache ''b'' [] = (''b'', []) # butlast fullCache
   \<and> \<not> cache_has (cache_set fullCache ''b'' []) (replicate 500 CHR ''a'')
   \<and> handler \<lparr> httpMethod = ''GET'', usernameParam = Some (replicate 500 CHR ''a''),
               refreshParam = None \<rparr> (cache_set fullCache ''b'' [])
       = (Awaiting (replicate 500 CHR ''a''), cache_set fullCache ''b'' [])
   \<and> length (run [] [FetchSettled ''octocat'' sampleWorld, Request (sampleRequest False)]) \<le> 500"
proof -
  let ?u = "replicate 500 CHR ''a''"
  let ?request = "\<lparr> httpMethod = ''GET'', usernameParam = Some ?u, refreshParam = None \<rparr>"
  note inst = cache_capacity_lru
  note bound = inst[THEN conjunct2, THEN conjunct1, rule_format, THEN conjunct1]
  note evict = inst[THEN conjunct2, THEN conjunct2, THEN conjunct2, THEN conjunct2,
      THEN conjunct1, rule_format, OF distinct_fullCache length_fullCache fullCache_no_b]
  have l: "fst (last fullCache) = ?u" by (simp add: last_fullCache)
  have u: "?u \<noteq> []" by simp
  have 1: "cache_set fullCache ''b'' [] = (''b'', []) # butlast fullCache"
    by (rule evict[THEN conjunct1])
  have "\<not> cache_has (cache_set fullCache ''b'' []) (fst (last fullCache))"
    by (rule evict[THEN conjunct2, THEN conjunct1])
  then have 2: "\<not> cache_has (cache_set fullCache ''b'' []) ?u"
    unfolding l .
  have r: "httpMethod ?request \<noteq> ''OPTIONS''" "usernameParam ?request = Some (fst (last fullCache))"
    by (simp_all add: l)
  have "handler ?request (cache_set fullCache ''b'' [])
          = (Awaiting (fst (last fullCache)), cache_set fullCache ''b'' [])"
    using evict[of "[]", THEN conjunct2, THEN conjunct2, THEN conjunct2, rule_format, OF r]
      u l by simp
  then have 4: "handler ?request (cache_set fullCache ''b'' [])
                 = (Awaiting ?u, cache_set fullCache ''b'' [])"
    by (simp only: l)
  have 5: "length (run [] [FetchSettled ''octocat'' sampleWorld,
                           Request (sampleRequest False)]) \<le> 500"
    by (rule bound)
  show ?thesis
    using distinct_fullCache length_fullCache fullCache_no_b l 1 2 4 5 by simp
qed

section \<open>The claim about stars and forks\<close>

lemma pnv_minus_5: "parseNumericValue ''-5'' = Num (- 5)"
proof -
  have n: "trim (toLowerCase ''-5'') = ''-5''"
    by (simp add: trim_def toLowerCase_def char_defs)
  have "parseInt10 ''-5'' = toNumber True (of_nat 5)"
    by (simp add: parseInt10_def trimStart_def char_defs decimalValue_def)
  also have "\<dots> = Num (- 5)" using toNumber_nat[of 5 True] by simp
  finally show ?thesis
    by (simp add: parseNumericValue_def n endsWith_def logicalOr_def toBoolean_def)
qed

lemma sampleItem2_fields:
  "stars (repoRecord ''octocat'' sampleItem2 None) = Num (- 5)"
  "forks (repoRecord ''octocat'' sampleItem2 None) = NaN"
  by (simp_all add: repoRecord_def Let_def sampleItem2_def trim_def char_defs pnv_minus_5 pnv_xk)

lemma sampleItem1_fields:
  "stars (repoRecord ''octocat'' sampleItem1 site) = Num 1200"
  "forks (repoRecord ''octocat'' sampleItem1 site) = Num 5"
  by (simp_all add: repoRecord_def Let_def sampleItem1_def trim_def char_defs pnv_1_2k pnv_5)

text \<open>
  C8, as the claim states it, fails. In the sample world the second pinned item of
  \<open>octocat\<close> shows the text "-5" for its stars and "xk" for its forks; in the returned list
  its stars are -5, which is negative, and its forks are \<open>NaN\<close>, which is neither an integer
  nor 0.
\<close>

theorem stars_forks_counterexample:
  "getPinnedRepos sampleWorld ''octocat''
     = Inr [repoRecord ''octocat'' sampleItem1 (Some ''https://example.com''),
            repoRecord ''octocat'' sampleItem2 None]
   \<and> trim (stargazersText sampleItem2) = ''-5''
   \<and> stars (repoRecord ''octocat'' sampleItem2 None) = Num (- 5)
   \<and> isNegative (stars (repoRecord ''octocat'' sampleItem2 None))
   \<and> trim (forksText sampleItem2) = ''xk''
   \<and> forks (repoRecord ''octocat'' sampleItem2 None) = NaN
   \<and> \<not> isInteger (forks (repoRecord ''octocat'' sampleItem2 None))
   \<and> forks (repoRecord ''octocat'' sampleItem2 None) \<noteq> Num 0"
  by (simp add: getPinnedRepos_sample sampleItem2_fields isNegative_def isInteger_def)
    (simp add: sampleItem2_def trim_def char_defs)

text \<open>
  C8, amended. For every record in every returned repo list, the stars and forks fields
  are the values of the numeric normalizer on the trimmed texts of the two anchors of a
  pinned item. Where such a text, lower-cased and trimmed, does not end in "k", the value
  is an integer (or an infinity, for more digits than a Number holds), it is negative
  only if the text holds a minus sign, and it is 0 whenever the text does not parse as an
  integer. Where the text ends in "k" and what precedes the "k" parses as a float, the
  value is an integer or an infinity, negative only if the text holds a minus sign.
\<close>

theorem stars_forks_values:
  assumes "getPinnedRepos w username = Inr repos" and "r \<in> set repos"
  shows "(\<exists>doc item. loadHTML w (''https://github.com/'' @ username) = Inr doc
            \<and> item \<in> set (pinnedItems doc)
            \<and> stars r = parseNumericValue (trim (stargazersText item))
            \<and> forks r = parseNumericValue (trim (forksText item)))
         \<and> (\<forall>t. \<not> endsWith (trim (toLowerCase t)) ''k'' \<longrightarrow>
               (isInteger (parseNumericValue t) \<or> isInfinite (parseNumericValue t))
               \<and> (CHR ''-'' \<notin> set t \<longrightarrow> \<not> isNegative (parseNumericValue t))
               \<and> (parseInt10 (trim (toLowerCase t)) = NaN \<longrightarrow> parseNumericValue t = Num 0))
         \<and> (\<forall>t. endsWith (trim (toLowerCase t)) ''k'' \<longrightarrow>
               parseFloat (butlast (trim (toLowerCase t))) \<noteq> NaN \<longrightarrow>
               (isInteger (parseNumericValue t) \<or> isInfinite (parseNumericValue t))
               \<and> (CHR ''-'' \<notin> set t \<longrightarrow> \<not> isNegative (parseNumericValue t)))"
proof (intro conjI allI impI)
  show "\<exists>doc item. loadHTML w (''https://github.com/'' @ username) = Inr doc
            \<and> item \<in> set (pinnedItems doc)
            \<and> stars r = parseNumericValue (trim (stargazersText item))
            \<and> forks r = parseNumericValue (trim (forksText item))"
  proof (cases "loadHTML w (''https://github.com/'' @ username)")
    case (Inl e)
    then show ?thesis using assms(1) by (simp add: getPinnedRepos_not_loaded)
  next
    case (Inr doc)
    from getPinnedRepos_loaded[OF Inr] assms
    obtain item site where "item \<in> set (pinnedItems doc)" "r = repoRecord username item site"
      by auto
    then show ?thesis using Inr by (auto simp: repoRecord_def Let_def)
  qed
next
  fix t assume a: "\<not> endsWith (trim (toLowerCase t)) ''k''"
  from parseNumericValue_integer_branch[OF a]
  show "isInteger (parseNumericValue t) \<or> isInfinite (parseNumericValue t)" by blast
  {
    assume "CHR ''-'' \<notin> set t"
    with parseNumericValue_integer_branch[OF a]
    show "\<not> isNegative (parseNumericValue t)" by blast
  }
  {
    assume "parseInt10 (trim (toLowerCase t)) = NaN"
    with parseNumericValue_integer_branch[OF a]
    show "parseNumericValue t = Num 0" by blast
  }
next
  fix t assume a: "endsWith (trim (toLowerCase t)) ''k''"
    "parseFloat (butlast (trim (toLowerCase t))) \<noteq> NaN"
  from parseNumericValue_k_branch[OF a]
  show "isInteger (parseNumericValue t) \<or> isInfinite (parseNumericValue t)" by blast
  {
    assume "CHR ''-'' \<notin> set t"
    with parseNumericValue_k_branch[OF a]
    show "\<not> isNegative (parseNumericValue t)" by blast
  }
qed

theorem stars_forks_values_witness:
  "getPinnedRepos sampleWorld ''octocat''
     = Inr [repoRecord ''octocat'' sampleItem1 (Some ''https://example.com''),
            repoRecord ''octocat'' sampleItem2 None]
   \<and> repoRecord ''octocat'' sampleItem1 (Some ''https://example.com'')
       \<in> set [repoRecord ''octocat'' sampleItem1 (Some ''https://example.com''),
              repoRecord ''octocat'' sampleItem2 None]
   \<and> stars (repoRecord ''octocat'' sampleItem1 (Some ''https://example.com'')) = Num 1200
   \<and> forks (repoRecord ''octocat'' sampleItem1 (Some ''https://example.com'')) = Num 5
   \<and> \<not> endsWith (trim (toLowerCase ''5'')) ''k'' \<and> CHR ''-'' \<notin> set ''5''
   \<and> isInteger (parseNumericValue ''5'') \<and> \<not> isNegative (parseNumericValue ''5'')
   \<and> \<not> endsWith (trim (toLowerCase ''n/a'')) ''k''
   \<and> parseInt10 (trim (toLowerCase ''n/a'')) = NaN \<and> parseNumericValue ''n/a'' = Num 0
   \<and> endsWith (trim (toLowerCase ''1.2k'')) ''k''
   \<and> parseFloat (butlast (trim (toLowerCase ''1.2k''))) \<noteq> NaN
   \<and> CHR ''-'' \<notin> set ''1.2k''
   \<and> isInteger (parseNumericValue ''1.2k'') \<and> \<not> isNegative (parseNumericValue ''1.2k'')"
proof -
  let ?r = "repoRecord ''octocat'' sampleItem1 (Some ''https://example.com'')"
  have m: "?r \<in> set [?r, repoRecord ''octocat'' sampleItem2 None]" by simp
  note inst = stars_forks_values[OF getPinnedRepos_sample m]
  have n5: "trim (toLowerCase ''5'') = ''5''"
    and nna: "trim (toLowerCase ''n/a'') = ''n/a''"
    and n12: "trim (toLowerCase ''1.2k'') = ''1.2k''"
    by (simp_all add: trim_def toLowerCase_def char_defs)
  have h5: "\<not> endsWith (trim (toLowerCase ''5'')) ''k''" "CHR ''-'' \<notin> set ''5''"
    by (simp_all add: n5 endsWith_def)
  have hna: "\<not> endsWith (trim (toLowerCase ''n/a'')) ''k''"
    "parseInt10 (trim (toLowerCase ''n/a'')) = NaN"
    by (simp_all add: nna endsWith_def parseInt10_def trimStart_def char_defs)
  have h12: "endsWith (trim (toLowerCase ''1.2k'')) ''k''"
    "parseFloat (butlast (trim (toLowerCase ''1.2k''))) \<noteq> NaN" "CHR ''-'' \<notin> set ''1.2k''"
    by (simp_all add: n12 endsWith_def parseFloat_1_2)
  have i5: "\<not> isInfinite (parseNumericValue ''5'')"
    and i12: "\<not> isInfinite (parseNumericValue ''1.2k'')"
    by (simp_all add: pnv_5 pnv_1_2k isInfinite_def)
  from inst h5 i5 have c5: "isInteger (parseNumericValue ''5'')"
    "\<not> isNegative (parseNumericValue ''5'')"
    by blast+
  from inst hna have cna: "parseNumericValue ''n/a'' = Num 0" by blast
  from inst h12 i12 have c12: "isInteger (parseNumericValue ''1.2k'')"
    "\<not> isNegative (parseNumericValue ''1.2k'')"
    by blast+
  show ?thesis
    using getPinnedRepos_sample m sampleItem1_fields h5 hna h12 c5 cna c12 by blast
qed

end
